theory Spec2Isabelle
  imports Complex_Main "HOL-Library.Log_Nat"
begin

section \<open>Text primitives\<close>

text \<open>
  Python strings are modelled as \<open>string\<close>; a character stands for a code point below 256.
  On that range \<open>str.isspace\<close> (used by \<open>str.strip\<close>, \<open>str.split\<close> and the regular
  expression class \<open>\s\<close>) holds for the twelve code points listed in \<open>is_space\<close>, the class
  \<open>\d\<close> holds for \<open>0\<close>..\<open>9\<close> only, and \<open>str.lower\<close> moves \<open>A\<close>..\<open>Z\<close> and the
  upper-case letters 192..222 (215, the multiplication sign, apart) up by 32.
\<close>

definition ord :: "char \<Rightarrow> nat" where
  "ord c = of_char c"

definition is_space :: "char \<Rightarrow> bool" where
  "is_space c = (ord c \<in> {9, 10, 11, 12, 13, 28, 29, 30, 31, 32, 133, 160})"

definition is_digit :: "char \<Rightarrow> bool" where
  "is_digit c = (48 \<le> ord c \<and> ord c \<le> 57)"

definition lower_char :: "char \<Rightarrow> char" where
  "lower_char c =
     (if (65 \<le> ord c \<and> ord c \<le> 90) \<or> (192 \<le> ord c \<and> ord c \<le> 222 \<and> ord c \<noteq> 215)
      then char_of (ord c + 32) else c)"

definition lower :: "string \<Rightarrow> string" where
  "lower s = map lower_char s"

definition strip :: "string \<Rightarrow> string" where
  "strip s = rev (dropWhile is_space (rev (dropWhile is_space s)))"

fun startswith :: "string \<Rightarrow> string \<Rightarrow> bool" where
  "startswith [] s = True"
| "startswith (p # ps) [] = False"
| "startswith (p # ps) (c # cs) = (p = c \<and> startswith ps cs)"

text \<open>\<open>contains needle hay\<close> is Python's \<open>needle in hay\<close>.\<close>

fun contains :: "string \<Rightarrow> string \<Rightarrow> bool" where
  "contains needle [] = (needle = [])"
| "contains needle (c # cs) = (startswith needle (c # cs) \<or> contains needle cs)"

section \<open>Amount extraction\<close>

text \<open>
  \<open>amount_group_at s\<close> matches the pattern \<open>[Ss]\$(\d+(?:\.\d{2})?)\<close> at the head of \<open>s\<close>
  and returns the captured group. The digit run is greedy and the fraction is optional, so
  the first attempt of the matcher (all digits, then the fraction when a dot and two digits
  follow) succeeds whenever any attempt does. \<open>re_search_amount\<close> is \<open>re.search\<close>: the
  leftmost position where the pattern matches.
\<close>

definition amount_group_at :: "string \<Rightarrow> string option" where
  "amount_group_at s =
     (case s of
        m # d # rest \<Rightarrow>
          if (m = CHR ''S'' \<or> m = CHR ''s'') \<and> d = CHR ''$'' then
            (let ds = takeWhile is_digit rest; r = dropWhile is_digit rest in
             if ds = [] then None
             else (case r of
                     p # a # b # _ \<Rightarrow>
                       if p = CHR ''.'' \<and> is_digit a \<and> is_digit b then Some (ds @ [p, a, b])
                       else Some ds
                   | _ \<Rightarrow> Some ds))
          else None
      | _ \<Rightarrow> None)"

fun re_search_amount :: "string \<Rightarrow> string option" where
  "re_search_amount [] = None"
| "re_search_amount (c # cs) =
     (case amount_group_at (c # cs) of
        Some g \<Rightarrow> Some g
      | None \<Rightarrow> re_search_amount cs)"

text \<open>
  \<open>float\<close> of the captured group. The group is a digit run, optionally followed by a dot
  and two digits; Python converts that numeral to the nearest double. The model keeps the
  decimal value of the numeral itself, so two results are the same double whenever the model
  gives the same decimal. Negation is exact on doubles.
\<close>

definition digit_val :: "char \<Rightarrow> nat" where
  "digit_val c = ord c - 48"

definition nat_of_digits :: "string \<Rightarrow> nat" where
  "nat_of_digits ds = foldl (\<lambda>n c. 10 * n + digit_val c) 0 ds"

definition float_of :: "string \<Rightarrow> rat" where
  "float_of g =
     (let ip = takeWhile is_digit g; fp = drop (length ip + 1) g
      in of_nat (nat_of_digits ip) + of_nat (nat_of_digits fp) / 10 ^ length fp)"

text \<open>\<open>extract_amount\<close>; \<open>None\<close> is a missing cell (\<open>pd.isna\<close>).\<close>

fun extract_amount :: "string option \<Rightarrow> rat" where
  "extract_amount None = 0"
| "extract_amount (Some t) =
     (let original_text = strip t; text = lower original_text in
      if text = [] \<or> contains ''n/a'' text then 0
      else (case re_search_amount original_text of
              Some g \<Rightarrow>
                (let amount = float_of g in
                 if contains ''cr'' text then - amount else amount)
            | None \<Rightarrow> 0))"


section \<open>Categorizer\<close>

text \<open>\<open>re.sub(r'\s+-\s+', ' ', s)\<close>: every run of white space, a hyphen and a run of white
  space becomes one space. Both runs are greedy and a hyphen is not white space, so a match
  that starts at a white-space character takes the whole run up to the hyphen and the whole
  run after it; the scan resumes behind the match.\<close>

function sub_spaced_hyphen :: "string \<Rightarrow> string" where
  "sub_spaced_hyphen [] = []"
| "sub_spaced_hyphen (c # cs) =
     (if is_space c then
        (case dropWhile is_space cs of
           h # s # r \<Rightarrow>
             if h = CHR ''-'' \<and> is_space s
             then CHR '' '' # sub_spaced_hyphen (dropWhile is_space r)
             else c # sub_spaced_hyphen cs
         | _ \<Rightarrow> c # sub_spaced_hyphen cs)
      else c # sub_spaced_hyphen cs)"
  by pat_completeness auto
termination
proof (relation "measure length")
  fix c :: char and cs x2 :: string and h s :: char and r x22 :: string
  assume "dropWhile is_space cs = h # x22" "x22 = s # r"
  then have "length cs = length (takeWhile is_space cs) + length (h # s # r)"
    by (metis length_append takeWhile_dropWhile_id)
  moreover have "length (dropWhile is_space r) \<le> length r"
    by (rule length_dropWhile_le)
  ultimately show "(dropWhile is_space r, c # cs) \<in> measure length"
    by simp
qed auto

text \<open>\<open>re.sub(r'[^a-z0-9\s\-]', ' ', s)\<close>, one character at a time.\<close>

definition clean_char :: "char \<Rightarrow> char" where
  "clean_char c =
     (if (97 \<le> ord c \<and> ord c \<le> 122) \<or> is_digit c \<or> is_space c \<or> c = CHR ''-''
      then c else CHR '' '')"

text \<open>\<open>str.split()\<close> without arguments: the maximal runs of characters that are not white
  space, none of them empty. \<open>cur\<close> is the run being read.\<close>

fun split_ws_acc :: "string \<Rightarrow> string \<Rightarrow> string list" where
  "split_ws_acc cur [] = (if cur = [] then [] else [cur])"
| "split_ws_acc cur (c # cs) =
     (if is_space c then (if cur = [] then split_ws_acc [] cs else cur # split_ws_acc [] cs)
      else split_ws_acc (cur @ [c]) cs)"

definition split_ws :: "string \<Rightarrow> string list" where
  "split_ws s = split_ws_acc [] s"

fun join :: "string \<Rightarrow> string list \<Rightarrow> string" where
  "join sep [] = []"
| "join sep [x] = x"
| "join sep (x # y # ys) = x @ sep @ join sep (y # ys)"

text \<open>\<open>re.split(r'[\s-]+', s)\<close>: the pieces between the maximal runs of separators; the
  first and the last piece may be empty.\<close>

definition is_sep :: "char \<Rightarrow> bool" where
  "is_sep c = (is_space c \<or> c = CHR ''-'')"

function re_split_acc :: "string \<Rightarrow> string \<Rightarrow> string list" where
  "re_split_acc cur [] = [cur]"
| "re_split_acc cur (c # cs) =
     (if is_sep c then cur # re_split_acc [] (dropWhile is_sep cs)
      else re_split_acc (cur @ [c]) cs)"
  by pat_completeness auto
termination
  by (relation "measure (\<lambda>(cur, s). length s)")
     (auto simp: le_imp_less_Suc length_dropWhile_le)

definition re_split :: "string \<Rightarrow> string list" where
  "re_split s = re_split_acc [] s"

definition normalize_name :: "string \<Rightarrow> string" where
  "normalize_name s =
     join '' '' (map strip (split_ws (map clean_char (sub_spaced_hyphen (lower s)))))"

text \<open>
  The similarity engine is the library fuzzywuzzy, which is not part of the repository.
  Its scorer is a parameter \<open>sc\<close> of the model (a score for a query and a choice), and
  \<open>process.extractOne(query, choices)\<close> is the choice with the greatest score together with
  that score, the first such choice on ties (Python's \<open>max\<close>), and nothing for no choices.
\<close>

type_synonym scorer = "string \<Rightarrow> string \<Rightarrow> nat"

fun extractOne :: "scorer \<Rightarrow> string \<Rightarrow> string list \<Rightarrow> (string \<times> nat) option" where
  "extractOne sc query [] = None"
| "extractOne sc query (k # ks) =
     (case extractOne sc query ks of
        None \<Rightarrow> Some (k, sc query k)
      | Some (b, s) \<Rightarrow> if sc query k < s then Some (b, s) else Some (k, sc query k))"

text \<open>A snapshot of the categories, as \<open>get_all_categories\<close> returns it: the category
  names with their keyword lists, in the iteration order of the dictionary.\<close>

type_synonym categories = "(string \<times> string list) list"

text \<open>The inner loop of the fuzzy mode, over the categories, for one word. The state is
  \<open>(best_category, highest_score)\<close>. A failing \<open>extractOne\<close> is skipped, as the
  \<open>except\<close> clause does.\<close>

fun match_categories :: "scorer \<Rightarrow> string \<Rightarrow> categories \<Rightarrow> string \<times> nat \<Rightarrow> string \<times> nat" where
  "match_categories sc word [] st = st"
| "match_categories sc word ((category, keywords) # rest) (best_category, highest_score) =
     (if keywords = [] then match_categories sc word rest (best_category, highest_score)
      else (case extractOne sc word keywords of
              None \<Rightarrow> match_categories sc word rest (best_category, highest_score)
            | Some (best_match, score) \<Rightarrow>
                if score > highest_score \<and> score > 75
                then match_categories sc word rest (category, score)
                else match_categories sc word rest (best_category, highest_score)))"

text \<open>The outer loop, over the words.\<close>

fun match_words :: "scorer \<Rightarrow> string list \<Rightarrow> categories \<Rightarrow> string \<times> nat \<Rightarrow> string \<times> nat" where
  "match_words sc [] cats st = st"
| "match_words sc (word # ws) cats st =
     (if word = [] then match_words sc ws cats st
      else match_words sc ws cats (match_categories sc word cats st))"

text \<open>The degraded mode: the first category with a keyword that, stripped and lowercased,
  is not empty and occurs in the normalized name.\<close>

fun match_substring :: "string \<Rightarrow> categories \<Rightarrow> string \<times> nat" where
  "match_substring name [] = (''others'', 0)"
| "match_substring name ((category, keywords) # rest) =
     (if keywords = [] then match_substring name rest
      else if list_ex (\<lambda>keyword. keyword \<noteq> [] \<and> strip keyword \<noteq> [] \<and>
                         contains (lower (strip keyword)) name) keywords
           then (category, 100)
           else match_substring name rest)"

text \<open>\<open>categorize_expense\<close>. \<open>process\<close> is the similarity engine, \<open>None\<close> when its import
  failed; \<open>categories\<close> is what \<open>get_all_categories()\<close> returns; the name is \<open>None\<close> for a
  missing cell (\<open>pd.isna\<close>).\<close>

definition categorize_expense ::
  "scorer option \<Rightarrow> categories \<Rightarrow> string option \<Rightarrow> string \<times> nat" where
  "categorize_expense process categories expense_name =
     (case expense_name of
        None \<Rightarrow> (''others'', 0)
      | Some raw \<Rightarrow>
          (let name = normalize_name raw in
           if name = [] then (''others'', 0)
           else (case process of
                   Some sc \<Rightarrow>
                     match_words sc (filter (\<lambda>w. w \<noteq> []) (re_split name)) categories
                       (''others'', 0)
                 | None \<Rightarrow> match_substring name categories)))"

text \<open>
  The matching rule in the specification's words. For every non-empty token and every
  category with a non-empty keyword list, \<open>scored_pairs\<close> holds the category with the best
  similarity between the token and any keyword of the category, in the order of the
  iteration (tokens first, categories within a token). \<open>keep_best\<close> is the replacement
  rule: a candidate replaces the current best match only if its score strictly exceeds both
  the current best score and the threshold 75.
\<close>

definition scored_pairs :: "scorer \<Rightarrow> categories \<Rightarrow> string list \<Rightarrow> (string \<times> nat) list" where
  "scored_pairs sc cats ws =
     concat (map (\<lambda>w. map (\<lambda>(c, ks). (c, Max (sc w ` set ks)))
                          (filter (\<lambda>(c, ks). ks \<noteq> []) cats)) ws)"

fun keep_best :: "(string \<times> nat) list \<Rightarrow> string \<times> nat \<Rightarrow> string \<times> nat" where
  "keep_best [] st = st"
| "keep_best ((c, s) # xs) (b, h) =
     keep_best xs (if s > h \<and> s > 75 then (c, s) else (b, h))"

section \<open>The category store\<close>

text \<open>
  The table \<open>categories\<close> of the database: rows of a name (the primary key) and the
  keywords joined by commas, in the order of their row ids. \<open>INSERT OR REPLACE\<close> deletes
  the row of the same name and inserts a new last row; \<open>INSERT OR IGNORE\<close> leaves a row of
  the same name alone.
\<close>

type_synonym categories_table = "(string \<times> string) list"

definition insert_or_replace :: "string \<Rightarrow> string \<Rightarrow> categories_table \<Rightarrow> categories_table" where
  "insert_or_replace name keywords tbl = filter (\<lambda>row. fst row \<noteq> name) tbl @ [(name, keywords)]"

definition insert_or_ignore :: "string \<Rightarrow> string \<Rightarrow> categories_table \<Rightarrow> categories_table" where
  "insert_or_ignore name keywords tbl =
     (if name \<in> fst ` set tbl then tbl else tbl @ [(name, keywords)])"

text \<open>\<open>s.split(',')\<close>: the pieces between the commas, empty pieces included.\<close>

fun split_comma_acc :: "string \<Rightarrow> string \<Rightarrow> string list" where
  "split_comma_acc cur [] = [cur]"
| "split_comma_acc cur (c # cs) =
     (if c = CHR '','' then cur # split_comma_acc [] cs else split_comma_acc (cur @ [c]) cs)"

definition split_comma :: "string \<Rightarrow> string list" where
  "split_comma s = split_comma_acc [] s"

text \<open>
  \<open>init_db\<close>, as far as the categories go. \<open>up\<close> tells whether the connection and the
  schema statements succeed (otherwise the source returns \<open>None\<close>); \<open>defaults\<close> is what
  \<open>load_default_categories()\<close> reads from the defaults file, which seeds an empty table.
  The result is the table the returned connection sees; the seeding is committed.
\<close>

definition seed_defaults :: "categories \<Rightarrow> categories_table" where
  "seed_defaults defaults =
     foldl (\<lambda>t (category, keywords).
              insert_or_ignore (lower category) (join '','' keywords) t)
       [] defaults"

definition init_db :: "bool \<Rightarrow> categories \<Rightarrow> categories_table \<Rightarrow> categories_table option" where
  "init_db up defaults tbl =
     (if up then Some (if tbl = [] then seed_defaults defaults else tbl) else None)"

text \<open>\<open>keywords.split(',') if keywords else []\<close>.\<close>

definition read_keywords :: "string \<Rightarrow> string list" where
  "read_keywords keywords = (if keywords = [] then [] else split_comma keywords)"


text \<open>\<open>','.join(keywords) if keywords else ''\<close>, the text stored for a keyword list.\<close>

definition keywords_text :: "string list \<Rightarrow> string" where
  "keywords_text keywords = (if keywords \<noteq> [] then join '','' keywords else [])"




subsection \<open>The bulk update\<close>

text \<open>\<open>[k.strip().lower() for k in keywords_str.split(',') if k.strip()]\<close>.\<close>

definition keyword_tokens :: "string \<Rightarrow> string list" where
  "keyword_tokens keywords_str =
     map (\<lambda>k. lower (strip k)) (filter (\<lambda>k. strip k \<noteq> []) (split_comma keywords_str))"

text \<open>The loop over the keywords of one category: \<open>keyword_map\<close> maps a claimed keyword to
  its category, \<open>acc\<close> is \<open>processed_categories[category]\<close>.\<close>

fun claim_keywords ::
  "string \<Rightarrow> string list \<Rightarrow> (string \<rightharpoonup> string) \<Rightarrow> string list \<Rightarrow>
   (string \<rightharpoonup> string) \<times> string list" where
  "claim_keywords category [] keyword_map acc = (keyword_map, acc)"
| "claim_keywords category (keyword # ks) keyword_map acc =
     (if keyword_map keyword \<noteq> None then claim_keywords category ks keyword_map acc
      else claim_keywords category ks (keyword_map(keyword \<mapsto> category)) (acc @ [keyword]))"

text \<open>The loop over the edited categories, a dictionary from a category to its keyword
  text: its keys are distinct, and \<open>processed_categories\<close> gets them in the same order.\<close>

fun process_categories ::
  "(string \<times> string) list \<Rightarrow> (string \<rightharpoonup> string) \<Rightarrow> categories \<Rightarrow>
   (string \<rightharpoonup> string) \<times> categories" where
  "process_categories [] keyword_map processed_categories = (keyword_map, processed_categories)"
| "process_categories ((category, keywords_str) # rest) keyword_map processed_categories =
     (case claim_keywords category (keyword_tokens keywords_str) keyword_map [] of
        (keyword_map', keywords) \<Rightarrow>
          process_categories rest keyword_map' (processed_categories @ [(category, keywords)]))"

definition update_categories_with_unique_keywords ::
  "bool \<Rightarrow> categories \<Rightarrow> (string \<times> string) list \<Rightarrow> categories_table \<Rightarrow>
   (bool \<times> string) \<times> categories_table" where
  "update_categories_with_unique_keywords up defaults edited_categories tbl =
     (let processed_categories = snd (process_categories edited_categories Map.empty []) in
      case init_db up defaults tbl of
        None \<Rightarrow> ((False, ''Database connection failed''), tbl)
      | Some t \<Rightarrow>
          ((True, ''Categories updated successfully''),
           foldl (\<lambda>t (category, keywords).
                    insert_or_replace (lower category) (keywords_text keywords) t)
             t processed_categories))"

subsection \<open>The duplicate query\<close>








text \<open>The tokens of the keyword texts of some edited categories.\<close>

definition tokens_of :: "(string \<times> string) list \<Rightarrow> string set" where
  "tokens_of es = (\<Union>e\<in>set es. set (keyword_tokens (snd e)))"

section \<open>The split calculator\<close>

text \<open>
  Python floats are IEEE 754 binary64 numbers. A finite double is modelled by the rational
  number it denotes, and every operation by the exact result rounded to the nearest double,
  ties to the even significand: \<open>fl x\<close> is the double nearest to \<open>x\<close>, with a
  significand of 53 bits and the least exponent \<open>-1074\<close> of the subnormal numbers.
  Overflow to infinity is outside the model, which stands for results below \<open>2 ^ 1024\<close>.
\<close>

text \<open>Rounding to the nearest integer, ties to the even one.\<close>

definition round_half_even :: "rat \<Rightarrow> int" where
  "round_half_even z =
     (let f = \<lfloor>z\<rfloor>; r = z - of_int f
      in if r < 1 / 2 then f else if 1 / 2 < r then f + 1 else if even f then f else f + 1)"

text \<open>\<open>ilog2 x\<close> is the integer part of the binary logarithm of a positive \<open>x\<close>: the
  difference of the bit lengths of numerator and denominator, or one less.\<close>

definition ilog2 :: "rat \<Rightarrow> int" where
  "ilog2 x =
     (case quotient_of x of
        (p, q) \<Rightarrow> (let d = bitlen p - bitlen q in if 2 powi d \<le> x then d else d - 1))"

definition fl :: "rat \<Rightarrow> rat" where
  "fl x =
     (if x = 0 then 0
      else (let e = max (ilog2 \<bar>x\<bar> - 52) (- 1074)
            in of_int (round_half_even (x / 2 powi e)) * 2 powi e))"

text \<open>
  \<open>round(x, 2)\<close> on a float: the decimal with two fraction digits nearest to the exact
  value of \<open>x\<close>, ties to the even digit, converted back to the nearest double.
\<close>

definition py_round2 :: "rat \<Rightarrow> rat" where
  "py_round2 x = fl (of_int (round_half_even (100 * x)) / 100)"

text \<open>
  \<open>calculate_split_amounts\<close>. The amount is a double; the percentage is an integer or a
  double, given by its value. \<open>self_percentage / 100\<close>, the product and the difference
  are float operations, each rounded to the nearest double.
\<close>

definition calculate_split_amounts :: "rat \<Rightarrow> rat \<Rightarrow> rat \<times> rat" where
  "calculate_split_amounts amount self_percentage =
     (let self_amount = py_round2 (fl (amount * fl (self_percentage / 100)));
          wife_amount = py_round2 (fl (amount - self_amount))
      in (self_amount, wife_amount))"


section \<open>The expenses table\<close>

text \<open>
  A row of the table \<open>expenses\<close>. The description and the category are nullable text
  columns (\<open>None\<close> is NULL); the numbers are kept as the decimals they were given as (no
  arithmetic is done on them here); the column \<open>created_at\<close> is left out. The table
  carries \<open>last_id\<close>, the largest row id given so far (\<open>AUTOINCREMENT\<close>).
\<close>

record expense =
  expense_id :: nat
  date :: string
  description :: "string option"
  amount :: rat
  category :: "string option"
  self_percentage :: rat
  self_amount :: rat
  wife_amount :: rat
  original_text :: string
  credit_card_bill_month :: string

record expenses_table =
  last_id :: nat
  rows :: "expense list"

subsection \<open>Dates\<close>

text \<open>
  The date parsers are library code (\<open>datetime\<close> and \<open>pandas\<close>) and parameters of the
  model: \<open>strptime lib fmt s\<close> is \<open>datetime.strptime(s, fmt).strftime('%Y-%m-%d')\<close>, with
  \<open>None\<close> for a \<open>ValueError\<close>, and \<open>to_datetime lib s\<close> is
  \<open>pd.to_datetime(s).strftime('%Y-%m-%d')\<close>, with \<open>None\<close> for an exception.
\<close>

record date_lib =
  strptime :: "string \<Rightarrow> string \<Rightarrow> string option"
  to_datetime :: "string \<Rightarrow> string option"

fun try_formats :: "date_lib \<Rightarrow> string \<Rightarrow> string list \<Rightarrow> string option" where
  "try_formats lib s [] = None"
| "try_formats lib s (fmt # fmts) =
     (case strptime lib fmt s of
        Some d \<Rightarrow> Some d
      | None \<Rightarrow> try_formats lib s fmts)"

definition parse_date :: "date_lib \<Rightarrow> string \<Rightarrow> string option" where
  "parse_date lib date_str =
     (case try_formats lib (strip date_str) [''%d %b %Y'', ''%d%b%Y'', ''%Y-%m-%d''] of
        Some d \<Rightarrow> Some d
      | None \<Rightarrow> to_datetime lib date_str)"

subsection \<open>Saving a batch\<close>

text \<open>A row of the data frame passed to \<open>save_expenses\<close>; its index is the position of the
  row (a \<open>RangeIndex\<close>).\<close>

record df_row =
  Date :: string
  Bills :: string
  Amount :: rat
  Category :: string
  Self_Percentage :: rat
  Self_Amount :: rat
  Wife_Amount :: rat
  Text :: string
  Credit_Card_Bill_Month :: string

text \<open>The first loop of \<open>save_expenses\<close>: all dates are parsed before anything is written,
  and the first date that does not parse ends the function.\<close>

fun parse_dates :: "date_lib \<Rightarrow> string list \<Rightarrow> string list option" where
  "parse_dates lib [] = Some []"
| "parse_dates lib (date_str # rest) =
     (case parse_date lib date_str of
        None \<Rightarrow> None
      | Some parsed_date \<Rightarrow>
          (case parse_dates lib rest of
             None \<Rightarrow> None
           | Some dates \<Rightarrow> Some (parsed_date # dates)))"

text \<open>One \<open>INSERT INTO expenses\<close>.\<close>

definition insert_expense :: "string \<Rightarrow> string \<Rightarrow> df_row \<Rightarrow> expenses_table \<Rightarrow> expenses_table" where
  "insert_expense parsed_date bill_month row tbl =
     \<lparr>last_id = last_id tbl + 1,
      rows = rows tbl @
        [\<lparr>expense_id = last_id tbl + 1, date = parsed_date, description = Some (Bills row),
          amount = Amount row, category = Some (Category row),
          self_percentage = Self_Percentage row, self_amount = Self_Amount row,
          wife_amount = Wife_Amount row, original_text = Text row,
          credit_card_bill_month = bill_month\<rparr>]\<rparr>"

fun insert_all :: "string \<Rightarrow> (string \<times> df_row) list \<Rightarrow> expenses_table \<Rightarrow> expenses_table" where
  "insert_all bill_month [] tbl = tbl"
| "insert_all bill_month ((parsed_date, row) # rest) tbl =
     insert_all bill_month rest (insert_expense parsed_date bill_month row tbl)"

text \<open>\<open>save_expenses\<close>: the success flag and the table after it. \<open>up\<close> tells whether
  \<open>init_db()\<close> gives a connection. An empty frame fails at \<open>iloc[0]\<close>; the exception makes
  the function return \<open>False\<close>.\<close>

definition save_expenses ::
  "date_lib \<Rightarrow> bool \<Rightarrow> df_row list \<Rightarrow> expenses_table \<Rightarrow> bool \<times> expenses_table" where
  "save_expenses lib up df tbl =
     (if \<not> up then (False, tbl)
      else (case parse_dates lib (map Date df) of
              None \<Rightarrow> (False, tbl)
            | Some dates \<Rightarrow>
                (case df of
                   [] \<Rightarrow> (False, tbl)
                 | first # _ \<Rightarrow>
                     (True, insert_all (Credit_Card_Bill_Month first) (zip dates df) tbl))))"

subsection \<open>Bulk recategorization\<close>

text \<open>\<open>UPDATE expenses SET category = ? WHERE id = ?\<close> and its \<open>rowcount\<close>.\<close>

definition set_category :: "string \<Rightarrow> nat \<Rightarrow> expense list \<Rightarrow> expense list" where
  "set_category new_category i es =
     map (\<lambda>e. if expense_id e = i then e\<lparr>category := Some new_category\<rparr> else e) es"

definition rowcount :: "nat \<Rightarrow> expense list \<Rightarrow> nat" where
  "rowcount i es = length (filter (\<lambda>e. expense_id e = i) es)"

text \<open>The result dictionary; an entry of \<open>updated_expenses\<close> is the triple of the id, the
  description and the new category.\<close>

record recat_result =
  total_processed :: nat
  total_updated :: nat
  updated_expenses :: "(nat \<times> string \<times> string) list"

text \<open>
  The loop of \<open>update_existing_expenses_categories\<close> over the fetched triples
  \<open>(id, description, category)\<close>. The state is the rows of the table, \<open>total_updates\<close>
  and \<open>updated_expenses\<close>. \<open>process\<close> and \<open>categories\<close> are those of
  \<open>categorize_expense\<close>: the snapshot that \<open>get_all_categories()\<close> returns during the run.
\<close>

fun recategorize_loop ::
  "scorer option \<Rightarrow> categories \<Rightarrow> (nat \<times> string option \<times> string option) list \<Rightarrow>
   expense list \<times> nat \<times> (nat \<times> string \<times> string) list \<Rightarrow>
   expense list \<times> nat \<times> (nat \<times> string \<times> string) list" where
  "recategorize_loop process categories [] st = st"
| "recategorize_loop process categories ((i, descr, current_category) # rest)
     (es, total_updates, updated) =
     (case descr of
        None \<Rightarrow> recategorize_loop process categories rest (es, total_updates, updated)
      | Some d \<Rightarrow>
          if d = [] then recategorize_loop process categories rest (es, total_updates, updated)
          else (case categorize_expense process categories (Some d) of
                  (new_category, confidence) \<Rightarrow>
                    if Some new_category \<noteq> current_category
                    then (if rowcount i es > 0
                          then recategorize_loop process categories rest
                                 (set_category new_category i es, total_updates + 1,
                                  updated @ [(i, d, new_category)])
                          else recategorize_loop process categories rest
                                 (set_category new_category i es, total_updates, updated))
                    else recategorize_loop process categories rest (es, total_updates, updated)))"

text \<open>\<open>update_existing_expenses_categories\<close>: the error message or the result dictionary,
  and the table after the run. \<open>up\<close> tells whether the connection opens.\<close>

definition update_existing_expenses_categories ::
  "bool \<Rightarrow> scorer option \<Rightarrow> categories \<Rightarrow> expenses_table \<Rightarrow>
   (string + recat_result) \<times> expenses_table" where
  "update_existing_expenses_categories up process categories tbl =
     (if \<not> up then (Inl ''Error updating existing expenses'', tbl)
      else (let expenses = map (\<lambda>e. (expense_id e, description e, category e)) (rows tbl) in
            case recategorize_loop process categories expenses (rows tbl, 0, []) of
              (es, total_updates, updated) \<Rightarrow>
                (Inr \<lparr>total_processed = length expenses, total_updated = total_updates,
                      updated_expenses = updated\<rparr>,
                 tbl\<lparr>rows := es\<rparr>)))"

subsection \<open>The maintenance script\<close>

text \<open>
  \<open>update_categories.py\<close> has its own \<open>categorize_expense\<close>: no normalization but
  \<open>lower()\<close>, the words are those of \<open>split()\<close>, and the two loops are those of the fuzzy
  mode above (\<open>split()\<close> gives no empty word, and \<open>extractOne\<close> is called on non-empty
  keyword lists only, where it returns a match).
\<close>

definition script_categorize_expense ::
  "scorer \<Rightarrow> categories \<Rightarrow> string option \<Rightarrow> string \<times> nat" where
  "script_categorize_expense sc categories expense_name =
     (case expense_name of
        None \<Rightarrow> (''others'', 0)
      | Some raw \<Rightarrow>
          if raw = [] then (''others'', 0)
          else match_words sc (split_ws (lower raw)) categories (''others'', 0))"

text \<open>\<open>UPDATE expenses SET category = ? WHERE id = ? AND category != ?\<close>: a row whose
  category is NULL is not updated, since the comparison with NULL is not true.\<close>

definition set_category_if_differs :: "string \<Rightarrow> nat \<Rightarrow> expense list \<Rightarrow> expense list" where
  "set_category_if_differs new_category i es =
     map (\<lambda>e. if expense_id e = i \<and> category e \<noteq> None \<and> category e \<noteq> Some new_category
               then e\<lparr>category := Some new_category\<rparr> else e) es"

definition rowcount_if_differs :: "string \<Rightarrow> nat \<Rightarrow> expense list \<Rightarrow> nat" where
  "rowcount_if_differs new_category i es =
     length (filter (\<lambda>e. expense_id e = i \<and> category e \<noteq> None \<and>
                          category e \<noteq> Some new_category) es)"

fun script_loop ::
  "scorer \<Rightarrow> categories \<Rightarrow> (nat \<times> string option) list \<Rightarrow>
   expense list \<times> nat \<times> (nat \<times> string \<times> string) list \<Rightarrow>
   expense list \<times> nat \<times> (nat \<times> string \<times> string) list" where
  "script_loop sc categories [] st = st"
| "script_loop sc categories ((i, descr) # rest) (es, total_updates, updated) =
     (case descr of
        None \<Rightarrow> script_loop sc categories rest (es, total_updates, updated)
      | Some d \<Rightarrow>
          if d = [] then script_loop sc categories rest (es, total_updates, updated)
          else (case script_categorize_expense sc categories (Some d) of
                  (new_category, confidence) \<Rightarrow>
                    if rowcount_if_differs new_category i es > 0
                    then script_loop sc categories rest
                           (set_category_if_differs new_category i es, total_updates + 1,
                            updated @ [(i, d, new_category)])
                    else script_loop sc categories rest
                           (set_category_if_differs new_category i es, total_updates, updated)))"

definition update_existing_expenses ::
  "bool \<Rightarrow> scorer \<Rightarrow> categories \<Rightarrow> expenses_table \<Rightarrow>
   (string + recat_result) \<times> expenses_table" where
  "update_existing_expenses up sc categories tbl =
     (if \<not> up then (Inl ''Error updating existing expenses'', tbl)
      else (let expenses = map (\<lambda>e. (expense_id e, description e)) (rows tbl) in
            case script_loop sc categories expenses (rows tbl, 0, []) of
              (es, total_updates, updated) \<Rightarrow>
                (Inr \<lparr>total_processed = length expenses, total_updated = total_updates,
                      updated_expenses = updated\<rparr>,
                 tbl\<lparr>rows := es\<rparr>)))"

text \<open>
  The records a run rewrites, in the specification's words: a record with a non-empty
  description whose recomputed category differs from the stored one. For the maintenance
  script the stored category must also not be NULL.
\<close>

definition new_category_of :: "scorer option \<Rightarrow> categories \<Rightarrow> expense \<Rightarrow> string" where
  "new_category_of process categories e =
     fst (categorize_expense process categories (description e))"

definition needs_update :: "scorer option \<Rightarrow> categories \<Rightarrow> expense \<Rightarrow> bool" where
  "needs_update process categories e =
     (description e \<noteq> None \<and> description e \<noteq> Some [] \<and>
      Some (new_category_of process categories e) \<noteq> category e)"

definition script_new_category_of :: "scorer \<Rightarrow> categories \<Rightarrow> expense \<Rightarrow> string" where
  "script_new_category_of sc categories e =
     fst (script_categorize_expense sc categories (description e))"

definition script_needs_update :: "scorer \<Rightarrow> categories \<Rightarrow> expense \<Rightarrow> bool" where
  "script_needs_update sc categories e =
     (description e \<noteq> None \<and> description e \<noteq> Some [] \<and> category e \<noteq> None \<and>
      category e \<noteq> Some (script_new_category_of sc categories e))"
section \<open>Amount extraction: the literal cases\<close>

text \<open>
  C4. The amount extractor on the seven literal inputs of the specification:
  "S$25.90" gives 25.90, "s$25.90" gives 25.90, "S$25.90 cr" gives -25.90, "S$25.90CR"
  gives -25.90, "S$100" gives 100.00, "MSIA CUISINE PTE LTD N/A SG" gives 0.00 and
  "Credit S$75.50 cr" gives -75.50.
\<close>

theorem extract_amount_literal_cases:
  "extract_amount (Some ''S$25.90'') = 2590 / 100 \<and>
   extract_amount (Some ''s$25.90'') = 2590 / 100 \<and>
   extract_amount (Some ''S$25.90 cr'') = - (2590 / 100) \<and>
   extract_amount (Some ''S$25.90CR'') = - (2590 / 100) \<and>
   extract_amount (Some ''S$100'') = 100 \<and>
   extract_amount (Some ''MSIA CUISINE PTE LTD N/A SG'') = 0 \<and>
   extract_amount (Some ''Credit S$75.50 cr'') = - (7550 / 100)"
  by code_simp


section \<open>Amount extraction: numerals with an irregular fraction\<close>

lemma not_digit_dot: "\<not> is_digit (CHR ''.'')"
  by (simp add: is_digit_def ord_def)

lemma takeWhile_digits_app:
  "\<forall>c\<in>set ds. is_digit c \<Longrightarrow> rest = [] \<or> \<not> is_digit (hd rest) \<Longrightarrow>
   takeWhile is_digit (ds @ rest) = ds"
  by (cases rest) (auto simp: takeWhile_append2)

lemma dropWhile_digits_app:
  "\<forall>c\<in>set ds. is_digit c \<Longrightarrow> rest = [] \<or> \<not> is_digit (hd rest) \<Longrightarrow>
   dropWhile is_digit (ds @ rest) = rest"
  by (cases rest) (auto simp: dropWhile_append2)

lemma amount_group_at_marker:
  assumes m: "m = CHR ''S'' \<or> m = CHR ''s''"
    and ds: "ds \<noteq> []" "\<forall>c\<in>set ds. is_digit c"
    and rest: "rest = [] \<or> \<not> is_digit (hd rest)"
  shows "amount_group_at (m # CHR ''$'' # ds @ rest) =
     Some (case rest of
             p # a # b # _ \<Rightarrow> if p = CHR ''.'' \<and> is_digit a \<and> is_digit b then ds @ [p, a, b] else ds
           | _ \<Rightarrow> ds)"
  using m ds rest
  by (auto simp: amount_group_at_def takeWhile_digits_app[OF ds(2) rest]
      dropWhile_digits_app[OF ds(2) rest] Let_def split: list.splits)

lemma re_search_amount_skip:
  "\<forall>i<length pre. amount_group_at (drop i (pre @ s)) = None \<Longrightarrow>
   re_search_amount (pre @ s) = re_search_amount s"
proof (induction pre)
  case Nil
  then show ?case by simp
next
  case (Cons c pre)
  have h0: "amount_group_at (c # pre @ s) = None"
    using Cons.prems by (auto dest: spec[of _ 0])
  have "\<forall>i<length pre. amount_group_at (drop i (pre @ s)) = None"
  proof (intro allI impI)
    fix i assume "i < length pre"
    then have "Suc i < length (c # pre)" by simp
    with Cons.prems have "amount_group_at (drop (Suc i) ((c # pre) @ s)) = None" by blast
    then show "amount_group_at (drop i (pre @ s)) = None" by simp
  qed
  with Cons.IH h0 show ?case by simp
qed

lemma re_search_amount_hit:
  "amount_group_at (c # cs) = Some g \<Longrightarrow> re_search_amount (c # cs) = Some g"
  by simp

lemma float_of_int_part:
  "\<forall>c\<in>set ds. is_digit c \<Longrightarrow> float_of ds = of_nat (nat_of_digits ds)"
  by (simp add: float_of_def Let_def nat_of_digits_def takeWhile_eq_all_conv[THEN iffD2])

lemma float_of_fraction:
  assumes "\<forall>c\<in>set ds. is_digit c"
  shows "float_of (ds @ [CHR ''.'', a, b]) =
     of_nat (nat_of_digits ds) + of_nat (nat_of_digits [a, b]) / 100"
proof -
  have "takeWhile is_digit (ds @ [CHR ''.'', a, b]) = ds"
    using assms by (simp add: takeWhile_append2 not_digit_dot)
  then show ?thesis by (simp add: float_of_def Let_def)
qed

text \<open>
  C10 (as stated). For every text holding the currency marker, digits and a fraction that
  is not exactly two digits, the extractor returns the value of the captured prefix. As
  stated this fails: the guard on "n/a" returns 0.00 before the pattern is searched, and a
  text containing "cr" gets the negated value.
\<close>

theorem extract_amount_irregular_fraction_counterexample:
  "extract_amount (Some ''S$25.9 N/A'') = 0 \<and> extract_amount (Some ''S$25.9 cr'') = - 25"
  by code_simp

text \<open>
  C10 (amended). A text whose stripped form contains "n/a" (case-insensitively) yields
  0.00 whatever amount it holds. Let the first match of the currency marker followed by a
  digit, in the stripped text, be followed by the digit run \<open>ds\<close>, a dot and a maximal
  run \<open>fs\<close> of fraction digits whose length is not two. Then the captured group is
  \<open>ds\<close> alone when there are fewer than two fraction digits and \<open>ds\<close>, the dot and the
  first two fraction digits otherwise; the remaining fraction digits are dropped, and the
  returned amount is 0.00 when the text contains "n/a" and otherwise the value of the
  captured group, negated when the text contains "cr" (case-insensitively).
\<close>

theorem extract_amount_irregular_fraction:
  "(contains ''n/a'' (lower (strip u)) \<longrightarrow> extract_amount (Some u) = 0) \<and>
   (strip t = pre @ m # CHR ''$'' # ds @ CHR ''.'' # fs @ tail \<and>
    (\<forall>i<length pre. amount_group_at (drop i (strip t)) = None) \<and>
    (m = CHR ''S'' \<or> m = CHR ''s'') \<and>
    ds \<noteq> [] \<and> (\<forall>c\<in>set ds. is_digit c) \<and>
    (\<forall>c\<in>set fs. is_digit c) \<and> length fs \<noteq> 2 \<and>
    (tail = [] \<or> \<not> is_digit (hd tail)) \<longrightarrow>
    re_search_amount (strip t) =
      Some (if length fs < 2 then ds else ds @ CHR ''.'' # take 2 fs) \<and>
    extract_amount (Some t) =
      (if contains ''n/a'' (lower (strip t)) then 0
       else (let v = (if length fs < 2 then of_nat (nat_of_digits ds)
                      else of_nat (nat_of_digits ds) +
                           of_nat (nat_of_digits (take 2 fs)) / 100)
             in if contains ''cr'' (lower (strip t)) then - v else v)))"
proof (rule conjI)
  show "contains ''n/a'' (lower (strip u)) \<longrightarrow> extract_amount (Some u) = 0"
    by simp
next
  show "strip t = pre @ m # CHR ''$'' # ds @ CHR ''.'' # fs @ tail \<and>
    (\<forall>i<length pre. amount_group_at (drop i (strip t)) = None) \<and>
    (m = CHR ''S'' \<or> m = CHR ''s'') \<and>
    ds \<noteq> [] \<and> (\<forall>c\<in>set ds. is_digit c) \<and>
    (\<forall>c\<in>set fs. is_digit c) \<and> length fs \<noteq> 2 \<and>
    (tail = [] \<or> \<not> is_digit (hd tail)) \<longrightarrow>
    re_search_amount (strip t) =
      Some (if length fs < 2 then ds else ds @ CHR ''.'' # take 2 fs) \<and>
    extract_amount (Some t) =
      (if contains ''n/a'' (lower (strip t)) then 0
       else (let v = (if length fs < 2 then of_nat (nat_of_digits ds)
                      else of_nat (nat_of_digits ds) +
                           of_nat (nat_of_digits (take 2 fs)) / 100)
             in if contains ''cr'' (lower (strip t)) then - v else v))"
  proof (rule impI)
  assume H: "strip t = pre @ m # CHR ''$'' # ds @ CHR ''.'' # fs @ tail \<and>
    (\<forall>i<length pre. amount_group_at (drop i (strip t)) = None) \<and>
    (m = CHR ''S'' \<or> m = CHR ''s'') \<and>
    ds \<noteq> [] \<and> (\<forall>c\<in>set ds. is_digit c) \<and>
    (\<forall>c\<in>set fs. is_digit c) \<and> length fs \<noteq> 2 \<and>
    (tail = [] \<or> \<not> is_digit (hd tail))"
  from H have shape: "strip t = pre @ m # CHR ''$'' # ds @ CHR ''.'' # fs @ tail"
    by (rule conjunct1)
  from H have first: "\<forall>i<length pre. amount_group_at (drop i (strip t)) = None"
    by blast
  from H have m: "m = CHR ''S'' \<or> m = CHR ''s''"
    by blast
  from H have ds: "ds \<noteq> []" "\<forall>c\<in>set ds. is_digit c"
    by blast+
  from H have fs: "\<forall>c\<in>set fs. is_digit c" "length fs \<noteq> 2"
    by blast+
  from H have tail: "tail = [] \<or> \<not> is_digit (hd tail)"
    by blast
  let ?rest = "CHR ''.'' # fs @ tail"
  let ?g = "if length fs < 2 then ds else ds @ CHR ''.'' # take 2 fs"
  have rest: "?rest = [] \<or> \<not> is_digit (hd ?rest)" by (simp add: not_digit_dot)
  have grp: "(case ?rest of
             p # a # b # _ \<Rightarrow> if p = CHR ''.'' \<and> is_digit a \<and> is_digit b then ds @ [p, a, b] else ds
           | _ \<Rightarrow> ds) = ?g"
  proof (cases fs)
    case Nil
    then show ?thesis using tail by (cases tail) (auto split: list.splits)
  next
    case (Cons a fs1)
    note A = this
    show ?thesis
    proof (cases fs1)
      case Nil
      then show ?thesis using A tail fs by (cases tail) (auto split: list.splits)
    next
      case (Cons b fs2)
      then show ?thesis using A fs by auto
    qed
  qed
  have at: "amount_group_at (m # CHR ''$'' # ds @ ?rest) = Some ?g"
    using amount_group_at_marker[OF m ds rest] grp by simp
  have "re_search_amount (strip t) = re_search_amount (m # CHR ''$'' # ds @ ?rest)"
    using re_search_amount_skip[of pre "m # CHR ''$'' # ds @ ?rest"] first shape by simp
  then have srch: "re_search_amount (strip t) = Some ?g"
    using at by simp
  have ne: "lower (strip t) \<noteq> []" using shape by (simp add: lower_def)
  have val: "float_of ?g = (if length fs < 2 then of_nat (nat_of_digits ds)
                     else of_nat (nat_of_digits ds) + of_nat (nat_of_digits (take 2 fs)) / 100)"
  proof (cases "length fs < 2")
    case True
    then show ?thesis using float_of_int_part[OF ds(2)] by simp
  next
    case False
    then obtain a b fs2 where "fs = a # b # fs2"
      by (cases fs; cases "tl fs") auto
    then show ?thesis using float_of_fraction[OF ds(2), of a b] by simp
  qed
  have amt: "extract_amount (Some t) =
           (if contains ''n/a'' (lower (strip t)) then 0
            else (let v = (if length fs < 2 then of_nat (nat_of_digits ds)
                           else of_nat (nat_of_digits ds) +
                                of_nat (nat_of_digits (take 2 fs)) / 100)
                  in if contains ''cr'' (lower (strip t)) then - v else v))"
    using srch ne val by (simp add: Let_def)
  from srch amt show "re_search_amount (strip t) =
      Some (if length fs < 2 then ds else ds @ CHR ''.'' # take 2 fs) \<and>
    extract_amount (Some t) =
      (if contains ''n/a'' (lower (strip t)) then 0
       else (let v = (if length fs < 2 then of_nat (nat_of_digits ds)
                      else of_nat (nat_of_digits ds) +
                           of_nat (nat_of_digits (take 2 fs)) / 100)
             in if contains ''cr'' (lower (strip t)) then - v else v))"
    by (intro conjI)
  qed
qed

theorem extract_amount_irregular_fraction_witness:
  "re_search_amount (strip ''pay S$25.999 cr'') = Some ''25.99'' \<and>
   extract_amount (Some ''pay S$25.999 cr'') = - (2599 / 100) \<and>
   extract_amount (Some ''N/A S$25.999'') = 0"
proof -
  have 1: "strip ''pay S$25.999 cr'' = ''pay '' @ CHR ''S'' # CHR ''$'' # ''25'' @ CHR ''.'' # ''999'' @ '' cr''"
    by code_simp
  have 2: "\<forall>i<length ''pay ''. amount_group_at (drop i (strip ''pay S$25.999 cr'')) = None"
    unfolding 1 by (simp add: All_less_Suc eval_nat_numeral amount_group_at_def)
  have 3: "\<forall>c\<in>set ''25''. is_digit c" "\<forall>c\<in>set ''999''. is_digit c"
    by (simp_all add: is_digit_def ord_def)
  have 4: "'' cr'' = [] \<or> \<not> is_digit (hd '' cr'')"
    by (simp add: is_digit_def ord_def)
  have 5: "\<not> contains ''n/a'' (lower (strip ''pay S$25.999 cr''))"
    by code_simp
  have 6: "contains ''cr'' (lower (strip ''pay S$25.999 cr''))"
    by code_simp
  have 7: "nat_of_digits ''25'' = 25" "nat_of_digits (take 2 ''999'') = 99"
    by code_simp+
  have 8: "contains ''n/a'' (lower (strip ''N/A S$25.999''))"
    by code_simp
  have m0: "CHR ''S'' = CHR ''S'' \<or> CHR ''S'' = CHR ''s''" by simp
  have d0: "''25'' \<noteq> []" by simp
  have l0: "length ''999'' \<noteq> 2" by simp
  note inst = extract_amount_irregular_fraction[where u = "''N/A S$25.999''"
      and t = "''pay S$25.999 cr''" and pre = "''pay ''" and m = "CHR ''S''"
      and ds = "''25''" and fs = "''999''" and tail = "'' cr''"]
  from inst 1 2 m0 d0 3 l0 4
  have a: "re_search_amount (strip ''pay S$25.999 cr'') = Some ''25.99''"
    by simp
  from inst 1 2 m0 d0 3 l0 4
  have "extract_amount (Some ''pay S$25.999 cr'') =
      (if contains ''n/a'' (lower (strip ''pay S$25.999 cr'')) then 0
       else (let v = (if length ''999'' < 2 then of_nat (nat_of_digits ''25'')
                      else of_nat (nat_of_digits ''25'') +
                           of_nat (nat_of_digits (take 2 ''999'')) / 100)
             in if contains ''cr'' (lower (strip ''pay S$25.999 cr'')) then - v else v))"
    by blast
  with 5 6 7 have b: "extract_amount (Some ''pay S$25.999 cr'') = - (2599 / 100)"
    by (simp add: Let_def)
  from inst 8 have c: "extract_amount (Some ''N/A S$25.999'') = 0"
    by blast
  from a b c show ?thesis by (intro conjI)
qed

section \<open>Categorizer: the best match in fuzzy mode\<close>

lemma extractOne_Max:
  "ks \<noteq> [] \<Longrightarrow> \<exists>b. extractOne sc q ks = Some (b, Max (sc q ` set ks))"
proof (induction ks)
  case Nil
  then show ?case by simp
next
  case (Cons k ks)
  show ?case
  proof (cases "ks = []")
    case True
    then show ?thesis by simp
  next
    case False
    with Cons.IH obtain b where b: "extractOne sc q ks = Some (b, Max (sc q ` set ks))"
      by blast
    have "Max (sc q ` set (k # ks)) = max (sc q k) (Max (sc q ` set ks))"
      using False by simp
    with b show ?thesis by (auto simp: max_def)
  qed
qed

lemma keep_best_append:
  "keep_best (xs @ ys) st = keep_best ys (keep_best xs st)"
  by (induction xs st rule: keep_best.induct) auto

lemma match_categories_keep_best:
  "match_categories sc w cats st =
   keep_best (map (\<lambda>(c, ks). (c, Max (sc w ` set ks))) (filter (\<lambda>(c, ks). ks \<noteq> []) cats)) st"
proof (induction cats arbitrary: st)
  case Nil
  then show ?case by simp
next
  case (Cons a cats)
  obtain c ks where a: "a = (c, ks)" by (cases a)
  obtain b h where st: "st = (b, h)" by (cases st)
  show ?case
  proof (cases "ks = []")
    case True
    then show ?thesis using Cons.IH a st by simp
  next
    case False
    then obtain m where "extractOne sc w ks = Some (m, Max (sc w ` set ks))"
      using extractOne_Max by blast
    then show ?thesis using Cons.IH a st False by simp
  qed
qed

lemma match_words_keep_best:
  "match_words sc ws cats st = keep_best (scored_pairs sc cats (filter (\<lambda>w. w \<noteq> []) ws)) st"
proof (induction ws arbitrary: st)
  case Nil
  then show ?case by (simp add: scored_pairs_def)
next
  case (Cons w ws)
  have sp: "w \<noteq> [] \<Longrightarrow> scored_pairs sc cats (w # filter (\<lambda>w. w \<noteq> []) ws) =
     map (\<lambda>(c, ks). (c, Max (sc w ` set ks))) (filter (\<lambda>(c, ks). ks \<noteq> []) cats)
     @ scored_pairs sc cats (filter (\<lambda>w. w \<noteq> []) ws)"
    by (simp add: scored_pairs_def)
  show ?case
    using Cons.IH sp by (simp add: keep_best_append match_categories_keep_best)
qed

lemma keep_best_snoc:
  "keep_best (xs @ [x]) st =
     (if snd x > snd (keep_best xs st) \<and> snd x > 75 then x else keep_best xs st)"
  by (cases x; cases "keep_best xs st") (simp add: keep_best_append)

lemma keep_best_first_max:
  "(keep_best xs (''others'', 0) = (''others'', 0) \<and> (\<forall>p\<in>set xs. snd p \<le> 75)) \<or>
   (\<exists>n<length xs. keep_best xs (''others'', 0) = xs ! n \<and> 75 < snd (xs ! n) \<and>
      (\<forall>m<length xs. snd (xs ! m) \<le> snd (xs ! n)) \<and> (\<forall>m<n. snd (xs ! m) < snd (xs ! n)))"
  (is "?A xs \<or> ?B xs")
proof (induction xs rule: rev_induct)
  case Nil
  then show ?case by simp
next
  case (snoc x xs)
  let ?r = "keep_best xs (''others'', 0)"
  from snoc.IH show ?case
  proof
    assume A: "?A xs"
    show ?thesis
    proof (cases "snd x > 75")
      case True
      then have r: "keep_best (xs @ [x]) (''others'', 0) = x"
        using A by (simp add: keep_best_snoc)
      have "?B (xs @ [x])"
      proof (intro exI[of _ "length xs"] conjI allI impI)
        show "length xs < length (xs @ [x])" by simp
        show "keep_best (xs @ [x]) (''others'', 0) = (xs @ [x]) ! length xs" using r by simp
        show "75 < snd ((xs @ [x]) ! length xs)" using True by simp
      next
        fix m assume "m < length (xs @ [x])"
        then show "snd ((xs @ [x]) ! m) \<le> snd ((xs @ [x]) ! length xs)"
          using A True by (cases "m = length xs") (auto simp: nth_append dest!: bspec[of _ _ "xs ! m"])
      next
        fix m assume "m < length xs"
        then show "snd ((xs @ [x]) ! m) < snd ((xs @ [x]) ! length xs)"
          using A True by (auto simp: nth_append dest!: bspec[of _ _ "xs ! m"])
      qed
      then show ?thesis ..
    next
      case False
      then have "?A (xs @ [x])" using A by (simp add: keep_best_snoc)
      then show ?thesis ..
    qed
  next
    assume "?B xs"
    then obtain n where n: "n < length xs" "?r = xs ! n" "75 < snd (xs ! n)"
      "\<forall>m<length xs. snd (xs ! m) \<le> snd (xs ! n)" "\<forall>m<n. snd (xs ! m) < snd (xs ! n)"
      by blast
    show ?thesis
    proof (cases "snd x > snd (xs ! n)")
      case True
      then have r: "keep_best (xs @ [x]) (''others'', 0) = x"
        using n by (simp add: keep_best_snoc)
      have "?B (xs @ [x])"
      proof (intro exI[of _ "length xs"] conjI allI impI)
        show "length xs < length (xs @ [x])" by simp
        show "keep_best (xs @ [x]) (''others'', 0) = (xs @ [x]) ! length xs" using r by simp
        show "75 < snd ((xs @ [x]) ! length xs)" using True n by simp
      next
        fix m assume "m < length (xs @ [x])"
        then show "snd ((xs @ [x]) ! m) \<le> snd ((xs @ [x]) ! length xs)"
          using n(4) True by (cases "m = length xs") (auto simp: nth_append dest!: spec[of _ m])
      next
        fix m assume "m < length xs"
        then show "snd ((xs @ [x]) ! m) < snd ((xs @ [x]) ! length xs)"
          using n(4) True by (auto simp: nth_append dest!: spec[of _ m])
      qed
      then show ?thesis ..
    next
      case False
      then have r: "keep_best (xs @ [x]) (''others'', 0) = xs ! n"
        using n by (simp add: keep_best_snoc)
      have "?B (xs @ [x])"
      proof (intro exI[of _ n] conjI allI impI)
        show "n < length (xs @ [x])" using n by simp
        show "keep_best (xs @ [x]) (''others'', 0) = (xs @ [x]) ! n" using r n by (simp add: nth_append)
        show "75 < snd ((xs @ [x]) ! n)" using n by (simp add: nth_append)
      next
        fix m assume "m < length (xs @ [x])"
        then show "snd ((xs @ [x]) ! m) \<le> snd ((xs @ [x]) ! n)"
          using n False by (cases "m = length xs") (auto simp: nth_append)
      next
        fix m assume "m < n"
        then show "snd ((xs @ [x]) ! m) < snd ((xs @ [x]) ! n)"
          using n by (auto simp: nth_append)
      qed
      then show ?thesis ..
    qed
  qed
qed

lemma categorize_expense_fuzzy_keep_best:
  "categorize_expense (Some sc) cats (Some desc) =
   keep_best (scored_pairs sc cats (filter (\<lambda>w. w \<noteq> []) (re_split (normalize_name desc))))
     (''others'', 0)"
proof (cases "normalize_name desc = []")
  case True
  then show ?thesis
    by (simp add: categorize_expense_def re_split_def scored_pairs_def)
next
  case False
  then show ?thesis
    by (simp add: categorize_expense_def Let_def match_words_keep_best)
qed

text \<open>
  C1 (as stated). Equal scores keep the earlier-iterated category: the first category, in
  the order the categories are iterated, wins ties. This fails: the words are the outer
  loop and the categories the inner one, so a tie is kept by the pair iterated first. With
  the categories t1 = [taxi] and t2 = [grab], in this order, and an exact-match scorer, the
  description "grab taxi" gives both categories the score 100, and the result is t2, which
  is iterated after t1.
\<close>

theorem categorize_expense_fuzzy_tie_counterexample:
  "scored_pairs (\<lambda>q k. if q = k then 100 else 0)
     [(''t1'', [''taxi'']), (''t2'', [''grab''])]
     (filter (\<lambda>w. w \<noteq> []) (re_split (normalize_name ''grab taxi''))) =
     [(''t1'', 0), (''t2'', 100), (''t1'', 100), (''t2'', 0)] \<and>
   categorize_expense (Some (\<lambda>q k. if q = k then 100 else 0))
     [(''t1'', [''taxi'']), (''t2'', [''grab''])] (Some ''grab taxi'') = (''t2'', 100)"
proof -
  have ws: "filter (\<lambda>w. w \<noteq> []) (re_split (normalize_name ''grab taxi'')) = [''grab'', ''taxi'']"
    by code_simp
  have cands: "scored_pairs (\<lambda>q k. if q = k then 100 else 0)
      [(''t1'', [''taxi'']), (''t2'', [''grab''])] [''grab'', ''taxi''] =
      [(''t1'', 0), (''t2'', 100), (''t1'', 100), (''t2'', 0)]"
    by (simp add: scored_pairs_def)
  have res: "categorize_expense (Some (\<lambda>q k. if q = k then 100 else 0))
     [(''t1'', [''taxi'']), (''t2'', [''grab''])] (Some ''grab taxi'') = (''t2'', 100)"
    by code_simp
  from ws cands res show ?thesis by simp
qed

text \<open>
  C1 (amended). In fuzzy mode, for every description and every snapshot of the categories:
  let the candidates be, for every non-empty token of the normalized description and every
  category with a non-empty keyword list, in the order of the iteration (tokens in the
  outer loop, categories in the inner one), the category with the best similarity between
  the token and its keywords. If no candidate scores strictly above 75, the result is
  ("others", 0). Otherwise the result is a candidate whose score is strictly above 75, is
  the highest of all candidates, and is strictly higher than the score of every candidate
  iterated before it: equal scores keep the earlier (token, category) pair, so among
  categories that tie, the one reached by the earliest token wins, and the category order
  decides only within one token.
\<close>

theorem categorize_expense_fuzzy_best:
  "let cands = scored_pairs sc cats (filter (\<lambda>w. w \<noteq> []) (re_split (normalize_name desc)));
       r = categorize_expense (Some sc) cats (Some desc)
   in if \<forall>p\<in>set cands. snd p \<le> 75 then r = (''others'', 0)
      else \<exists>n<length cands. r = cands ! n \<and> 75 < snd r \<and>
             (\<forall>m<length cands. snd (cands ! m) \<le> snd r) \<and>
             (\<forall>m<n. snd (cands ! m) < snd r)"
proof -
  let ?cands = "scored_pairs sc cats (filter (\<lambda>w. w \<noteq> []) (re_split (normalize_name desc)))"
  have r: "categorize_expense (Some sc) cats (Some desc) = keep_best ?cands (''others'', 0)"
    by (rule categorize_expense_fuzzy_keep_best)
  show ?thesis
  proof (cases "\<forall>p\<in>set ?cands. snd p \<le> 75")
    case True
    have "\<not> (\<exists>n<length ?cands. 75 < snd (?cands ! n))"
    proof
      assume "\<exists>n<length ?cands. 75 < snd (?cands ! n)"
      then obtain n where n: "n < length ?cands" "75 < snd (?cands ! n)" by blast
      from n(1) have "?cands ! n \<in> set ?cands" by (rule nth_mem)
      with True have "snd (?cands ! n) \<le> 75" by blast
      with n(2) show False by simp
    qed
    with keep_best_first_max[of ?cands]
    have "keep_best ?cands (''others'', 0) = (''others'', 0)"
      by blast
    then show ?thesis using True r by (simp add: Let_def)
  next
    case False
    then have "\<exists>n<length ?cands. keep_best ?cands (''others'', 0) = ?cands ! n \<and>
        75 < snd (?cands ! n) \<and>
        (\<forall>m<length ?cands. snd (?cands ! m) \<le> snd (?cands ! n)) \<and>
        (\<forall>m<n. snd (?cands ! m) < snd (?cands ! n))"
      using keep_best_first_max[of ?cands] by blast
    then show ?thesis using False r by (auto simp: Let_def)
  qed
qed


theorem categorize_expense_fuzzy_best_witness:
  "scored_pairs (\<lambda>q k. if q = k then 100 else 0)
     [(''food'', [''restaurant'', ''cafe'']), (''transport'', [''taxi'', ''grab''])]
     (filter (\<lambda>w. w \<noteq> []) (re_split (normalize_name ''Grab Ride''))) =
     [(''food'', 0), (''transport'', 100), (''food'', 0), (''transport'', 0)] \<and>
   categorize_expense (Some (\<lambda>q k. if q = k then 100 else 0))
     [(''food'', [''restaurant'', ''cafe'']), (''transport'', [''taxi'', ''grab''])]
     (Some ''Grab Ride'') = (''transport'', 100)"
proof -
  let ?sc = "\<lambda>q k :: string. if q = k then 100 else (0 :: nat)"
  let ?cats = "[(''food'', [''restaurant'', ''cafe'']), (''transport'', [''taxi'', ''grab''])]"
  have ws: "filter (\<lambda>w. w \<noteq> []) (re_split (normalize_name ''Grab Ride'')) = [''grab'', ''ride'']"
    by code_simp
  have cands: "scored_pairs ?sc ?cats [''grab'', ''ride''] =
      [(''food'', 0), (''transport'', 100), (''food'', 0), (''transport'', 0)]"
    by (simp add: scored_pairs_def)
  from categorize_expense_fuzzy_best[of ?sc ?cats "''Grab Ride''"]
  have "categorize_expense (Some ?sc) ?cats (Some ''Grab Ride'') = (''transport'', 100)"
    unfolding ws cands Let_def
    by (auto simp: less_Suc_eq nth_Cons' eval_nat_numeral split: if_splits)
  with ws cands show ?thesis by simp
qed


section \<open>Categorizer: the shape of the result\<close>

lemma match_categories_shape:
  "st = (''others'', 0) \<or> (fst st \<in> fst ` set cats \<and> 75 < snd st) \<Longrightarrow>
   match_categories sc w cs st = (''others'', 0) \<or>
   (fst (match_categories sc w cs st) \<in> fst ` (set cats \<union> set cs) \<and>
    75 < snd (match_categories sc w cs st))"
proof (induction cs arbitrary: st cats)
  case Nil
  then show ?case by auto
next
  case (Cons a cs)
  obtain c ks where a: "a = (c, ks)" by (cases a)
  obtain b h where st: "st = (b, h)" by (cases st)
  have keep: "match_categories sc w cs st = (''others'', 0) \<or>
   (fst (match_categories sc w cs st) \<in> fst ` (set cats \<union> set (a # cs)) \<and>
    75 < snd (match_categories sc w cs st))"
    using Cons.IH[of st cats] Cons.prems by auto
  have repl: "75 < s \<Longrightarrow> match_categories sc w cs (c, s) = (''others'', 0) \<or>
   (fst (match_categories sc w cs (c, s)) \<in> fst ` (set cats \<union> set (a # cs)) \<and>
    75 < snd (match_categories sc w cs (c, s)))" for s
    using Cons.IH[of "(c, s)" "a # cats"] a by auto
  show ?case
    using keep repl unfolding a st
    by (simp split: option.splits prod.splits)
qed

lemma match_words_shape:
  "st = (''others'', 0) \<or> (fst st \<in> fst ` set cats \<and> 75 < snd st) \<Longrightarrow>
   match_words sc ws cats st = (''others'', 0) \<or>
   (fst (match_words sc ws cats st) \<in> fst ` set cats \<and> 75 < snd (match_words sc ws cats st))"
proof (induction ws arbitrary: st)
  case Nil
  then show ?case by simp
next
  case (Cons w ws)
  have "match_categories sc w cats st = (''others'', 0) \<or>
     (fst (match_categories sc w cats st) \<in> fst ` set cats \<and>
      75 < snd (match_categories sc w cats st))"
    using match_categories_shape[OF Cons.prems, of sc w cats] by simp
  then show ?case using Cons.IH Cons.prems by simp
qed

lemma match_substring_shape:
  "match_substring name cats = (''others'', 0) \<or>
   (fst (match_substring name cats) \<in> fst ` set cats \<and> snd (match_substring name cats) = 100)"
  by (induction name cats rule: match_substring.induct) auto

text \<open>
  C9. For every description and snapshot, in either mode, the result of the categorizer is
  exactly ("others", 0), or a pair of a category name of the snapshot and a score strictly
  above 75, which is 100 in the degraded substring mode. So a score in the range 1..75 is
  never returned, and a score of 0 comes with "others" only.
\<close>

theorem categorize_expense_result_shape:
  "categorize_expense process cats expense_name = (''others'', 0) \<or>
   (fst (categorize_expense process cats expense_name) \<in> fst ` set cats \<and>
    75 < snd (categorize_expense process cats expense_name) \<and>
    (process = None \<longrightarrow> snd (categorize_expense process cats expense_name) = 100))"
proof (cases expense_name)
  case None
  then show ?thesis by (simp add: categorize_expense_def)
next
  case (Some raw)
  show ?thesis
  proof (cases "normalize_name raw = []")
    case True
    then show ?thesis using Some by (simp add: categorize_expense_def)
  next
    case False
    show ?thesis
    proof (cases process)
      case None
      then show ?thesis
        using Some False match_substring_shape[of "normalize_name raw" cats]
        by (auto simp: categorize_expense_def)
    next
      case (Some sc)
      then show ?thesis
        using \<open>expense_name = Some raw\<close> False
          match_words_shape[of "(''others'', 0)" cats sc
            "filter (\<lambda>w. w \<noteq> []) (re_split (normalize_name raw))"]
        by (auto simp: categorize_expense_def)
    qed
  qed
qed

theorem categorize_expense_result_shape_witness:
  "categorize_expense None
     [(''food'', [''restaurant'', ''cafe'']), (''transport'', [''taxi'', ''grab''])]
     (Some ''Grab Ride'') \<noteq> (''others'', 0) \<and>
   fst (categorize_expense None
     [(''food'', [''restaurant'', ''cafe'']), (''transport'', [''taxi'', ''grab''])]
     (Some ''Grab Ride'')) \<in> {''food'', ''transport''} \<and>
   snd (categorize_expense None
     [(''food'', [''restaurant'', ''cafe'']), (''transport'', [''taxi'', ''grab''])]
     (Some ''Grab Ride'')) = 100"
proof -
  let ?cats = "[(''food'', [''restaurant'', ''cafe'']), (''transport'', [''taxi'', ''grab''])]"
  have ne: "categorize_expense None ?cats (Some ''Grab Ride'') \<noteq> (''others'', 0)"
    by code_simp
  from categorize_expense_result_shape[of None ?cats "Some ''Grab Ride''"] ne
  show ?thesis by simp
qed


section \<open>Category store: the bulk update\<close>

lemma claim_keywords_result:
  "claim_keywords c ks km acc = (km', acc') \<Longrightarrow>
   dom km' = dom km \<union> set ks \<and>
   (\<exists>new. acc' = acc @ new \<and> set new = set ks - dom km \<and> distinct new)"
proof (induction ks arbitrary: km acc)
  case Nil
  then show ?case by simp
next
  case (Cons k ks)
  show ?case
  proof (cases "km k = None")
    case False
    then have "claim_keywords c ks km acc = (km', acc')" using Cons.prems by simp
    from Cons.IH[OF this] False show ?thesis by (auto simp: dom_def)
  next
    case True
    then have "claim_keywords c ks (km(k \<mapsto> c)) (acc @ [k]) = (km', acc')"
      using Cons.prems by simp
    from Cons.IH[OF this] obtain new where
      d: "dom km' = dom (km(k \<mapsto> c)) \<union> set ks" and
      n: "acc' = (acc @ [k]) @ new" "set new = set ks - dom (km(k \<mapsto> c))" "distinct new"
      by blast
    have "acc' = acc @ (k # new)" using n(1) by simp
    moreover have "set (k # new) = set (k # ks) - dom km"
      using n(2) True by (auto simp: dom_def)
    moreover have "distinct (k # new)" using n(2,3) by auto
    moreover have "dom km' = dom km \<union> set (k # ks)" using d by auto
    ultimately show ?thesis by blast
  qed
qed

lemma process_categories_result:
  "process_categories es km pc = (km', pc') \<Longrightarrow>
   \<exists>new. pc' = pc @ new \<and> map fst new = map fst es \<and>
     dom km' = dom km \<union> tokens_of es \<and>
     distinct (concat (map snd new)) \<and>
     set (concat (map snd new)) \<inter> dom km = {} \<and>
     (\<forall>i<length es. set (snd (new ! i)) =
        set (keyword_tokens (snd (es ! i))) - dom km - tokens_of (take i es))"
proof (induction es arbitrary: km pc)
  case Nil
  then show ?case by (simp add: tokens_of_def)
next
  case (Cons e es)
  obtain c ktext where e: "e = (c, ktext)" by (cases e)
  obtain km1 kws where ck: "claim_keywords c (keyword_tokens ktext) km [] = (km1, kws)"
    by (cases "claim_keywords c (keyword_tokens ktext) km []")
  from claim_keywords_result[OF ck]
  have d1: "dom km1 = dom km \<union> set (keyword_tokens ktext)"
    and k1: "set kws = set (keyword_tokens ktext) - dom km" "distinct kws"
    by auto
  have "process_categories es km1 (pc @ [(c, kws)]) = (km', pc')"
    using Cons.prems e ck by simp
  from Cons.IH[OF this] obtain new where
    n: "pc' = (pc @ [(c, kws)]) @ new" "map fst new = map fst es"
      "dom km' = dom km1 \<union> tokens_of es"
      "distinct (concat (map snd new))"
      "set (concat (map snd new)) \<inter> dom km1 = {}"
      "\<forall>i<length es. set (snd (new ! i)) =
        set (keyword_tokens (snd (es ! i))) - dom km1 - tokens_of (take i es)"
    by blast
  let ?new = "(c, kws) # new"
  have 1: "pc' = pc @ ?new" using n(1) by simp
  have 2: "map fst ?new = map fst (e # es)" using n(2) e by simp
  have 3: "dom km' = dom km \<union> tokens_of (e # es)"
    using n(3) d1 e by (auto simp: tokens_of_def)
  have 4: "distinct (concat (map snd ?new))"
    using n(4,5) k1 d1 by auto
  have 5: "set (concat (map snd ?new)) \<inter> dom km = {}"
    using n(5) k1 d1 by auto
  have 6: "\<forall>i<length (e # es). set (snd (?new ! i)) =
        set (keyword_tokens (snd ((e # es) ! i))) - dom km - tokens_of (take i (e # es))"
  proof (intro allI impI)
    fix i assume i: "i < length (e # es)"
    show "set (snd (?new ! i)) =
        set (keyword_tokens (snd ((e # es) ! i))) - dom km - tokens_of (take i (e # es))"
    proof (cases i)
      case 0
      then show ?thesis using k1 e by (simp add: tokens_of_def)
    next
      case (Suc j)
      then have "j < length es" using i by simp
      with n(6) have "set (snd (new ! j)) =
        set (keyword_tokens (snd (es ! j))) - dom km1 - tokens_of (take j es)" by blast
      then show ?thesis using Suc d1 e by (auto simp: tokens_of_def)
    qed
  qed
  from 1 2 3 4 5 6 show ?case by blast
qed

lemma processed_categories_facts:
  fixes edited
  defines "processed \<equiv> snd (process_categories edited Map.empty [])"
  shows "map fst processed = map fst edited"
    and "distinct (concat (map snd processed))"
    and "\<forall>i<length edited. set (snd (processed ! i)) =
        set (keyword_tokens (snd (edited ! i))) - tokens_of (take i edited)"
proof -
  obtain km' pc' where r: "process_categories edited Map.empty [] = (km', pc')"
    by (cases "process_categories edited Map.empty []")
  from process_categories_result[OF r] r
  show "map fst processed = map fst edited"
    and "distinct (concat (map snd processed))"
    and "\<forall>i<length edited. set (snd (processed ! i)) =
        set (keyword_tokens (snd (edited ! i))) - tokens_of (take i edited)"
    unfolding processed_def by auto
qed

lemma ord_comma: "ord (CHR '','') = 44"
  by (simp add: ord_def)

lemma lower_char_not_comma: "c \<noteq> CHR '','' \<Longrightarrow> lower_char c \<noteq> CHR '',''"
proof
  assume c: "c \<noteq> CHR '',''" and l: "lower_char c = CHR '',''"
  show False
  proof (cases "(65 \<le> ord c \<and> ord c \<le> 90) \<or> (192 \<le> ord c \<and> ord c \<le> 222 \<and> ord c \<noteq> 215)")
    case False
    then have "lower_char c = c" unfolding lower_char_def by (rule if_not_P)
    with c l show False by simp
  next
    case True
    then have "lower_char c = char_of (ord c + 32)" unfolding lower_char_def by (rule if_P)
    then have "ord (lower_char c) = (ord c + 32) mod 256" by (simp add: ord_def)
    moreover have "ord (lower_char c) = 44" using l ord_comma by simp
    ultimately have m: "(ord c + 32) mod 256 = 44" by simp
    from True have "ord c + 32 < 256" by linarith
    then have "(ord c + 32) mod 256 = ord c + 32" by simp
    with m have "ord c + 32 = 44" by simp
    with True show False by linarith
  qed
qed

lemma set_strip_subset: "set (strip s) \<subseteq> set s"
proof -
  have "set (dropWhile is_space (rev (dropWhile is_space s))) \<subseteq> set (rev (dropWhile is_space s))"
    by (rule set_dropWhileD[THEN subsetI])
  also have "\<dots> \<subseteq> set s" using set_dropWhileD[of _ is_space s] by auto
  finally show ?thesis by (simp add: strip_def)
qed

lemma split_comma_acc_no_comma:
  "CHR '','' \<notin> set cur \<Longrightarrow> p \<in> set (split_comma_acc cur s) \<Longrightarrow> CHR '','' \<notin> set p"
  by (induction cur s rule: split_comma_acc.induct) (auto split: if_splits)

lemma keyword_tokens_clean:
  assumes "k \<in> set (keyword_tokens s)"
  shows "k \<noteq> []" and "CHR '','' \<notin> set k"
proof -
  from assms have "k \<in> (\<lambda>k. lower (strip k)) ` {k \<in> set (split_comma s). strip k \<noteq> []}"
    by (simp add: keyword_tokens_def)
  then obtain p where p: "p \<in> set (split_comma s)" "strip p \<noteq> []" "k = lower (strip p)"
    by blast
  show "k \<noteq> []" using p(2,3) by (simp add: lower_def)
  have "CHR '','' \<notin> set p"
    using p(1) split_comma_acc_no_comma[of "[]" p s] by (simp add: split_comma_def)
  then have np: "CHR '','' \<notin> set (strip p)" using set_strip_subset[of p] by blast
  show "CHR '','' \<notin> set k"
  proof
    assume "CHR '','' \<in> set k"
    then obtain c where c: "c \<in> set (strip p)" "lower_char c = CHR '',''"
      unfolding p(3) lower_def by auto
    from c(1) np have "c \<noteq> CHR '',''" by blast
    from lower_char_not_comma[OF this] c(2) show False by simp
  qed
qed

lemma split_comma_acc_append:
  "CHR '','' \<notin> set k \<Longrightarrow> split_comma_acc cur (k @ s) = split_comma_acc (cur @ k) s"
  by (induction k arbitrary: cur) auto

lemma split_comma_join:
  "ks \<noteq> [] \<Longrightarrow> \<forall>k\<in>set ks. CHR '','' \<notin> set k \<Longrightarrow>
   split_comma_acc cur (join '','' ks) = (cur @ hd ks) # tl ks"
proof (induction ks arbitrary: cur)
  case Nil
  then show ?case by simp
next
  case (Cons x xs)
  have x: "CHR '','' \<notin> set x" using Cons.prems by simp
  show ?case
  proof (cases xs)
    case Nil
    then show ?thesis using split_comma_acc_append[OF x, of cur "[]"] by simp
  next
    case (Cons y ys)
    have "split_comma_acc cur (x @ '','' @ join '','' xs) =
          split_comma_acc (cur @ x) ('','' @ join '','' xs)"
      using split_comma_acc_append[OF x, of cur] by simp
    also have "\<dots> = (cur @ x) # split_comma_acc [] (join '','' xs)" by simp
    also have "split_comma_acc [] (join '','' xs) = ([] @ hd xs) # tl xs"
      using Cons.IH[of "[]"] Cons.prems Cons by simp
    finally show ?thesis using Cons by simp
  qed
qed

lemma read_keywords_join:
  assumes "\<forall>k\<in>set ks. k \<noteq> [] \<and> CHR '','' \<notin> set k"
  shows "read_keywords (if ks \<noteq> [] then join '','' ks else []) = ks"
proof (cases ks)
  case Nil
  then show ?thesis by (simp add: read_keywords_def)
next
  case (Cons k ks')
  then have ne: "join '','' ks \<noteq> []" using assms by (cases ks') auto
  have "split_comma (join '','' ks) = ks"
    using split_comma_join[of ks "[]"] assms Cons by (simp add: split_comma_def)
  then show ?thesis using ne Cons by (simp add: read_keywords_def)
qed

lemma distinct_concat_nth:
  "distinct (concat xss) \<Longrightarrow> i < j \<Longrightarrow> j < length xss \<Longrightarrow> set (xss ! i) \<inter> set (xss ! j) = {}"
proof (induction xss arbitrary: i j)
  case Nil
  then show ?case by simp
next
  case (Cons xs xss)
  from Cons.prems(2) obtain j' where j: "j = Suc j'" by (cases j) auto
  show ?case
  proof (cases i)
    case 0
    have "xss ! j' \<in> set xss" using Cons.prems(3) j by simp
    then have "set (xss ! j') \<subseteq> set (concat xss)" by auto
    moreover have "set xs \<inter> set (concat xss) = {}" using Cons.prems(1) by simp
    ultimately show ?thesis using 0 j by auto
  next
    case (Suc i')
    then have "set (xss ! i') \<inter> set (xss ! j') = {}"
      using Cons.IH[of i' j'] Cons.prems j by simp
    then show ?thesis using Suc j by simp
  qed
qed

lemma distinct_concat_elems:
  assumes "distinct (concat (map snd ps))" "p \<in> set ps" "q \<in> set ps" "p \<noteq> q"
  shows "set (snd p) \<inter> set (snd q) = {}"
proof -
  from assms(2,3) obtain i j where ij: "i < length ps" "ps ! i = p" "j < length ps" "ps ! j = q"
    by (auto simp: in_set_conv_nth)
  with assms(4) have ne: "i \<noteq> j" by auto
  have d: "distinct (concat (map snd ps))" by (rule assms(1))
  show ?thesis
  proof (cases "i < j")
    case True
    from distinct_concat_nth[OF d True] ij show ?thesis by simp
  next
    case False
    with ne have "j < i" by simp
    from distinct_concat_nth[OF d this] ij show ?thesis by auto
  qed
qed

lemma insert_or_replace_rows:
  "set (insert_or_replace n x t) = {r \<in> set t. fst r \<noteq> n} \<union> {(n, x)}"
  by (auto simp: insert_or_replace_def)

lemma persist_rows:
  "(n, x) \<in> set (foldl (\<lambda>t (c, ks). insert_or_replace (lower c) (keywords_text ks) t) t ps) \<Longrightarrow>
   (n \<notin> lower ` fst ` set ps \<and> (n, x) \<in> set t) \<or>
   (\<exists>(c, ks)\<in>set ps. n = lower c \<and> x = keywords_text ks)"
proof (induction ps arbitrary: n x rule: rev_induct)
  case Nil
  then show ?case by simp
next
  case (snoc p ps)
  obtain c ks where p: "p = (c, ks)" by (cases p)
  let ?t = "foldl (\<lambda>t (c, ks). insert_or_replace (lower c) (keywords_text ks) t) t ps"
  from snoc.prems have "(n, x) \<in> {r \<in> set ?t. fst r \<noteq> lower c} \<union> {(lower c, keywords_text ks)}"
    by (simp add: p insert_or_replace_rows)
  then show ?case
  proof
    assume "(n, x) \<in> {r \<in> set ?t. fst r \<noteq> lower c}"
    then have in_t: "(n, x) \<in> set ?t" and ne: "n \<noteq> lower c" by auto
    from snoc.IH[OF in_t] ne p show ?thesis by auto
  next
    assume "(n, x) \<in> {(lower c, keywords_text ks)}"
    then show ?thesis using p by auto
  qed
qed

lemma insert_or_replace_names:
  "fst ` set (insert_or_replace n x t) = insert n (fst ` set t)"
proof
  show "fst ` set (insert_or_replace n x t) \<subseteq> insert n (fst ` set t)"
    by (auto simp: insert_or_replace_def)
  show "insert n (fst ` set t) \<subseteq> fst ` set (insert_or_replace n x t)"
  proof
    fix m assume "m \<in> insert n (fst ` set t)"
    then show "m \<in> fst ` set (insert_or_replace n x t)"
      by (cases "m = n") (force simp: insert_or_replace_def)+
  qed
qed

lemma persist_names:
  "fst ` set (foldl (\<lambda>t (c, ks). insert_or_replace (lower c) (keywords_text ks) t) t ps) =
   fst ` set t \<union> lower ` fst ` set ps"
proof (induction ps rule: rev_induct)
  case Nil
  then show ?case by simp
next
  case (snoc p ps)
  obtain c ks where p: "p = (c, ks)" by (cases p)
  show ?case using snoc.IH by (simp add: p insert_or_replace_names image_Un Un_commute insert_commute)
qed

lemma read_keywords_text:
  "\<forall>k\<in>set ks. k \<noteq> [] \<and> CHR '','' \<notin> set k \<Longrightarrow> read_keywords (keywords_text ks) = ks"
  using read_keywords_join[of ks] by (simp add: keywords_text_def)

lemma processed_tokens_clean:
  assumes "(c, ks) \<in> set (snd (process_categories edited Map.empty []))"
  shows "\<forall>k\<in>set ks. k \<noteq> [] \<and> CHR '','' \<notin> set k"
proof -
  let ?processed = "snd (process_categories edited Map.empty [])"
  from assms obtain i where i: "i < length ?processed" "?processed ! i = (c, ks)"
    by (auto simp: in_set_conv_nth)
  have "length ?processed = length edited"
    using processed_categories_facts(1)[of edited] by (metis length_map)
  with i have "set ks = set (keyword_tokens (snd (edited ! i))) - tokens_of (take i edited)"
    using processed_categories_facts(3)[of edited] by auto
  then show ?thesis using keyword_tokens_clean by blast
qed

text \<open>
  C8. For every bulk edit of categories: the keyword text of each category is split into
  trimmed, lowercased, non-empty tokens, and the list kept for the category holds exactly
  those of its tokens that no category processed before it has (first claim wins); the
  kept lists together hold no token twice. No error is raised: with a working connection
  the update succeeds, every edited category gets a row, the keyword list read back from
  the row of an edited category is a kept list, and the lists read back from the rows of
  two different edited categories share no token. Without a connection nothing is written.
\<close>

theorem bulk_update_first_claim_wins:
  "let processed = snd (process_categories edited Map.empty []);
       result = update_categories_with_unique_keywords True defaults edited tbl;
       written = lower ` fst ` set edited
   in map fst processed = map fst edited \<and>
      (\<forall>i<length edited. set (snd (processed ! i)) =
         set (keyword_tokens (snd (edited ! i))) - tokens_of (take i edited)) \<and>
      distinct (concat (map snd processed)) \<and>
      fst result = (True, ''Categories updated successfully'') \<and>
      written \<subseteq> fst ` set (snd result) \<and>
      (\<forall>(n, x)\<in>set (snd result). n \<in> written \<longrightarrow>
         (\<exists>(c, ks)\<in>set processed. n = lower c \<and> read_keywords x = ks)) \<and>
      (\<forall>(n1, x1)\<in>set (snd result). \<forall>(n2, x2)\<in>set (snd result).
         n1 \<in> written \<and> n2 \<in> written \<and> n1 \<noteq> n2 \<longrightarrow>
         set (read_keywords x1) \<inter> set (read_keywords x2) = {}) \<and>
      update_categories_with_unique_keywords False defaults edited tbl =
        ((False, ''Database connection failed''), tbl)"
proof -
  define processed where "processed = snd (process_categories edited Map.empty [])"
  define result where "result = update_categories_with_unique_keywords True defaults edited tbl"
  define written where "written = lower ` fst ` set edited"
  obtain t where t: "init_db True defaults tbl = Some t"
    by (simp add: init_db_def)
  have res: "result = ((True, ''Categories updated successfully''),
      foldl (\<lambda>t (c, ks). insert_or_replace (lower c) (keywords_text ks) t) t processed)"
    by (simp add: result_def update_categories_with_unique_keywords_def Let_def t processed_def)
  have names: "map fst processed = map fst edited"
    unfolding processed_def by (rule processed_categories_facts(1))
  have toks: "\<forall>i<length edited. set (snd (processed ! i)) =
         set (keyword_tokens (snd (edited ! i))) - tokens_of (take i edited)"
    unfolding processed_def by (rule processed_categories_facts(3))
  have dist: "distinct (concat (map snd processed))"
    unfolding processed_def by (rule processed_categories_facts(2))
  have wr: "written = lower ` fst ` set processed"
  proof -
    have "fst ` set processed = fst ` set edited"
      using names by (metis set_map)
    then show ?thesis by (simp add: written_def)
  qed
  have sub: "written \<subseteq> fst ` set (snd result)"
    by (simp add: res persist_names wr)
  have rows: "\<exists>(c, ks)\<in>set processed. n = lower c \<and> read_keywords x = ks"
    if "(n, x) \<in> set (snd result)" "n \<in> written" for n x
  proof -
    from that(1) persist_rows[of n x t processed] that(2) wr
    obtain c ks where cks: "(c, ks) \<in> set processed" "n = lower c" "x = keywords_text ks"
      unfolding res by auto
    have "read_keywords x = ks"
      using processed_tokens_clean[of c ks edited] cks(1,3) read_keywords_text[of ks]
      by (simp add: processed_def)
    with cks show ?thesis by auto
  qed
  have disj: "set (read_keywords x1) \<inter> set (read_keywords x2) = {}"
    if "(n1, x1) \<in> set (snd result)" "(n2, x2) \<in> set (snd result)"
       "n1 \<in> written" "n2 \<in> written" "n1 \<noteq> n2" for n1 x1 n2 x2
  proof -
    from rows[OF that(1,3)] obtain c1 ks1 where
      1: "(c1, ks1) \<in> set processed" "n1 = lower c1" "read_keywords x1 = ks1" by auto
    from rows[OF that(2,4)] obtain c2 ks2 where
      2: "(c2, ks2) \<in> set processed" "n2 = lower c2" "read_keywords x2 = ks2" by auto
    from that(5) 1(2) 2(2) have "(c1, ks1) \<noteq> (c2, ks2)" by auto
    from distinct_concat_elems[OF dist 1(1) 2(1) this] 1(3) 2(3) show ?thesis by simp
  qed
  have fail: "update_categories_with_unique_keywords False defaults edited tbl =
        ((False, ''Database connection failed''), tbl)"
    by (simp add: update_categories_with_unique_keywords_def init_db_def Let_def)
  have rows': "\<forall>(n, x)\<in>set (snd result). n \<in> written \<longrightarrow>
         (\<exists>(c, ks)\<in>set processed. n = lower c \<and> read_keywords x = ks)"
    using rows by blast
  have disj': "\<forall>(n1, x1)\<in>set (snd result). \<forall>(n2, x2)\<in>set (snd result).
         n1 \<in> written \<and> n2 \<in> written \<and> n1 \<noteq> n2 \<longrightarrow>
         set (read_keywords x1) \<inter> set (read_keywords x2) = {}"
    using disj by blast
  have fstres: "fst result = (True, ''Categories updated successfully'')"
    by (simp add: res)
  from names toks dist fstres sub rows' disj' fail
  show ?thesis
    unfolding Let_def processed_def[symmetric] result_def[symmetric] written_def[symmetric]
    by blast
qed

theorem bulk_update_first_claim_wins_witness:
  "snd (process_categories
          [(''food'', ''Cafe, restaurant ,,cafe''), (''transport'', ''taxi,CAFE, grab'')]
          Map.empty []) =
     [(''food'', [''cafe'', ''restaurant'']), (''transport'', [''taxi'', ''grab''])] \<and>
   update_categories_with_unique_keywords True []
     [(''food'', ''Cafe, restaurant ,,cafe''), (''transport'', ''taxi,CAFE, grab'')]
     [(''food'', ''pizza'')] =
     ((True, ''Categories updated successfully''),
      [(''food'', ''cafe,restaurant''), (''transport'', ''taxi,grab'')]) \<and>
   set (read_keywords ''cafe,restaurant'') \<inter> set (read_keywords ''taxi,grab'') = {}"
proof -
  let ?E = "[(''food'', ''Cafe, restaurant ,,cafe''), (''transport'', ''taxi,CAFE, grab'')]"
  let ?T = "[(''food'', ''pizza'')]"
  have e1: "snd (process_categories ?E Map.empty []) =
     [(''food'', [''cafe'', ''restaurant'']), (''transport'', [''taxi'', ''grab''])]"
    by code_simp
  have e2: "update_categories_with_unique_keywords True [] ?E ?T =
     ((True, ''Categories updated successfully''),
      [(''food'', ''cafe,restaurant''), (''transport'', ''taxi,grab'')])"
    by code_simp
  have w: "''food'' \<in> lower ` fst ` set ?E" "''transport'' \<in> lower ` fst ` set ?E"
    by code_simp+
  from bulk_update_first_claim_wins[of ?E "[]" ?T]
  have "\<forall>(n1, x1)\<in>set (snd (update_categories_with_unique_keywords True [] ?E ?T)).
        \<forall>(n2, x2)\<in>set (snd (update_categories_with_unique_keywords True [] ?E ?T)).
         n1 \<in> lower ` fst ` set ?E \<and> n2 \<in> lower ` fst ` set ?E \<and> n1 \<noteq> n2 \<longrightarrow>
         set (read_keywords x1) \<inter> set (read_keywords x2) = {}"
    unfolding Let_def by blast
  then have "set (read_keywords ''cafe,restaurant'') \<inter> set (read_keywords ''taxi,grab'') = {}"
    unfolding e2 using w by simp
  with e1 e2 show ?thesis by simp
qed

section \<open>Category store: what the duplicate query decides\<close>










section \<open>Category store: keyword uniqueness across operations\<close>







section \<open>Saving a batch of expenses\<close>

lemma parse_dates_None_iff:
  "parse_dates lib ds = None \<longleftrightarrow> (\<exists>d\<in>set ds. parse_date lib d = None)"
  by (induction ds) (auto split: option.splits)

lemma parse_dates_Some:
  "parse_dates lib ds = Some xs \<Longrightarrow> xs = map (\<lambda>d. the (parse_date lib d)) ds"
  by (induction ds arbitrary: xs) (auto split: option.splits)

lemma try_formats_None_iff:
  "try_formats lib s fmts = None \<longleftrightarrow> (\<forall>fmt\<in>set fmts. strptime lib fmt s = None)"
  by (induction fmts) (auto split: option.splits)

lemma parse_date_None_iff:
  "parse_date lib s = None \<longleftrightarrow>
     (\<forall>fmt\<in>set [''%d %b %Y'', ''%d%b%Y'', ''%Y-%m-%d'']. strptime lib fmt (strip s) = None) \<and>
     to_datetime lib s = None"
  unfolding parse_date_def
  using try_formats_None_iff[of lib "strip s" "[''%d %b %Y'', ''%d%b%Y'', ''%Y-%m-%d'']"]
  by (cases "try_formats lib (strip s) [''%d %b %Y'', ''%d%b%Y'', ''%Y-%m-%d'']") auto

lemma insert_all_rows:
  "\<exists>new. rows (insert_all bm ps tbl) = rows tbl @ new \<and> map date new = map fst ps \<and>
         map description new = map (\<lambda>p. Some (Bills (snd p))) ps"
proof (induction ps arbitrary: tbl)
  case Nil
  then show ?case by simp
next
  case (Cons p ps)
  obtain d r where p: "p = (d, r)" by (cases p)
  from Cons.IH[of "insert_expense d bm r tbl"] obtain new where
    n: "rows (insert_all bm ps (insert_expense d bm r tbl)) = rows (insert_expense d bm r tbl) @ new"
       "map date new = map fst ps" "map description new = map (\<lambda>p. Some (Bills (snd p))) ps"
    by blast
  obtain e where e: "rows (insert_expense d bm r tbl) = rows tbl @ [e]" "date e = d"
      "description e = Some (Bills r)"
    by (simp add: insert_expense_def)
  have "rows (insert_all bm (p # ps) tbl) = rows tbl @ (e # new)"
    using n(1) e(1) p by simp
  moreover have "map date (e # new) = map fst (p # ps)" using n(2) e(2) p by simp
  moreover have "map description (e # new) = map (\<lambda>p. Some (Bills (snd p))) (p # ps)"
    using n(3) e(3) p by simp
  ultimately show ?case by blast
qed

lemma save_expenses_rejected:
  "\<exists>r\<in>set df. parse_date lib (Date r) = None \<Longrightarrow> save_expenses lib up df tbl = (False, tbl)"
proof -
  assume "\<exists>r\<in>set df. parse_date lib (Date r) = None"
  then have "parse_dates lib (map Date df) = None"
    by (simp add: parse_dates_None_iff)
  then show ?thesis by (simp add: save_expenses_def)
qed

lemma save_expenses_accepted:
  assumes "up" "df \<noteq> []" "\<forall>r\<in>set df. parse_date lib (Date r) \<noteq> None"
  shows "fst (save_expenses lib up df tbl) \<and>
         (\<exists>new. rows (snd (save_expenses lib up df tbl)) = rows tbl @ new \<and>
                map date new = map (\<lambda>r. the (parse_date lib (Date r))) df \<and>
                map description new = map (\<lambda>r. Some (Bills r)) df)"
proof -
  from assms(3) have "parse_dates lib (map Date df) \<noteq> None"
    by (simp add: parse_dates_None_iff)
  then obtain dates where d: "parse_dates lib (map Date df) = Some dates" by blast
  from parse_dates_Some[OF d] have dates: "dates = map (\<lambda>r. the (parse_date lib (Date r))) df"
    by (simp add: comp_def)
  obtain first rest where df: "df = first # rest" using assms(2) by (cases df) auto
  have s: "save_expenses lib up df tbl =
      (True, insert_all (Credit_Card_Bill_Month first) (zip dates df) tbl)"
    using assms(1) d df by (simp add: save_expenses_def)
  from insert_all_rows[of "Credit_Card_Bill_Month first" "zip dates df" tbl] obtain new where
    n: "rows (insert_all (Credit_Card_Bill_Month first) (zip dates df) tbl) = rows tbl @ new"
       "map date new = map fst (zip dates df)"
       "map description new = map (\<lambda>p. Some (Bills (snd p))) (zip dates df)"
    by blast
  have l: "length dates = length df" using dates by simp
  have "map fst (zip dates df) = dates" using l by simp
  moreover have "map (\<lambda>p. Some (Bills (snd p))) (zip dates df) = map (\<lambda>r. Some (Bills r)) df"
  proof -
    have "map (\<lambda>p. Some (Bills (snd p))) (zip dates df) = map (\<lambda>r. Some (Bills r)) (map snd (zip dates df))"
      by (simp add: comp_def)
    also have "map snd (zip dates df) = df" using l by simp
    finally show ?thesis .
  qed
  ultimately show ?thesis using s n dates by auto
qed

text \<open>
  C5. A date fails to parse exactly when the three explicit formats and the permissive
  fallback all fail. For every batch of rows: if the date of at least one row fails to
  parse, the batch is rejected and the table is left as it was, so no record of the batch
  is persisted; the table changes only when the date of every row parses; and with a
  connection, a non-empty batch whose dates all parse is appended, one record per row with
  the parsed date.
\<close>

theorem save_expenses_all_or_nothing:
  "(parse_date lib s = None \<longleftrightarrow>
      (\<forall>fmt\<in>set [''%d %b %Y'', ''%d%b%Y'', ''%Y-%m-%d'']. strptime lib fmt (strip s) = None) \<and>
      to_datetime lib s = None) \<and>
   ((\<exists>r\<in>set df. parse_date lib (Date r) = None) \<longrightarrow>
      save_expenses lib up df tbl = (False, tbl)) \<and>
   (snd (save_expenses lib up df tbl) \<noteq> tbl \<longrightarrow>
      (\<forall>r\<in>set df. parse_date lib (Date r) \<noteq> None)) \<and>
   (up \<and> df \<noteq> [] \<and> (\<forall>r\<in>set df. parse_date lib (Date r) \<noteq> None) \<longrightarrow>
      fst (save_expenses lib up df tbl) \<and>
      (\<exists>new. rows (snd (save_expenses lib up df tbl)) = rows tbl @ new \<and>
             map date new = map (\<lambda>r. the (parse_date lib (Date r))) df \<and>
             map description new = map (\<lambda>r. Some (Bills r)) df))"
proof (intro conjI impI)
  show "parse_date lib s = None \<longleftrightarrow>
      (\<forall>fmt\<in>set [''%d %b %Y'', ''%d%b%Y'', ''%Y-%m-%d'']. strptime lib fmt (strip s) = None) \<and>
      to_datetime lib s = None"
    by (rule parse_date_None_iff)
next
  assume "\<exists>r\<in>set df. parse_date lib (Date r) = None"
  then show "save_expenses lib up df tbl = (False, tbl)" by (rule save_expenses_rejected)
next
  assume ch: "snd (save_expenses lib up df tbl) \<noteq> tbl"
  show "\<forall>r\<in>set df. parse_date lib (Date r) \<noteq> None"
  proof (rule ccontr)
    assume "\<not> (\<forall>r\<in>set df. parse_date lib (Date r) \<noteq> None)"
    then have "\<exists>r\<in>set df. parse_date lib (Date r) = None" by simp
    from save_expenses_rejected[OF this] ch show False by simp
  qed
next
  assume a: "up \<and> df \<noteq> [] \<and> (\<forall>r\<in>set df. parse_date lib (Date r) \<noteq> None)"
  then show "fst (save_expenses lib up df tbl)"
    using save_expenses_accepted[of up df lib tbl] by blast
  from a show "\<exists>new. rows (snd (save_expenses lib up df tbl)) = rows tbl @ new \<and>
             map date new = map (\<lambda>r. the (parse_date lib (Date r))) df \<and>
             map description new = map (\<lambda>r. Some (Bills r)) df"
    using save_expenses_accepted[of up df lib tbl] by blast
qed

theorem save_expenses_all_or_nothing_witness:
  "parse_date \<lparr>strptime = (\<lambda>fmt s. if fmt = ''%Y-%m-%d'' \<and> s = ''2024-01-01'' then Some s else None),
               to_datetime = (\<lambda>s. None)\<rparr> ''2024-01-01'' = Some ''2024-01-01'' \<and>
   parse_date \<lparr>strptime = (\<lambda>fmt s. if fmt = ''%Y-%m-%d'' \<and> s = ''2024-01-01'' then Some s else None),
               to_datetime = (\<lambda>s. None)\<rparr> ''not-a-date'' = None \<and>
   save_expenses \<lparr>strptime = (\<lambda>fmt s. if fmt = ''%Y-%m-%d'' \<and> s = ''2024-01-01'' then Some s else None),
                  to_datetime = (\<lambda>s. None)\<rparr> True
     [\<lparr>Date = ''2024-01-01'', Bills = ''Grab Ride'', Amount = 10, Category = ''transport'',
        Self_Percentage = 50, Self_Amount = 5, Wife_Amount = 5, Text = ''S$10.00'',
        Credit_Card_Bill_Month = ''2024-01-01''\<rparr>,
      \<lparr>Date = ''not-a-date'', Bills = ''Cafe'', Amount = 4, Category = ''food'',
        Self_Percentage = 50, Self_Amount = 2, Wife_Amount = 2, Text = ''S$4.00'',
        Credit_Card_Bill_Month = ''2024-01-01''\<rparr>]
     \<lparr>last_id = 0, rows = []\<rparr> = (False, \<lparr>last_id = 0, rows = []\<rparr>)"
proof -
  let ?lib = "\<lparr>strptime = (\<lambda>fmt s. if fmt = ''%Y-%m-%d'' \<and> s = ''2024-01-01'' then Some s else None),
               to_datetime = (\<lambda>s. None)\<rparr>"
  let ?r1 = "\<lparr>Date = ''2024-01-01'', Bills = ''Grab Ride'', Amount = 10, Category = ''transport'',
        Self_Percentage = 50, Self_Amount = 5, Wife_Amount = 5, Text = ''S$10.00'',
        Credit_Card_Bill_Month = ''2024-01-01''\<rparr>"
  let ?r2 = "\<lparr>Date = ''not-a-date'', Bills = ''Cafe'', Amount = 4, Category = ''food'',
        Self_Percentage = 50, Self_Amount = 2, Wife_Amount = 2, Text = ''S$4.00'',
        Credit_Card_Bill_Month = ''2024-01-01''\<rparr>"
  have s1: "strip ''2024-01-01'' = ''2024-01-01''" and s2: "strip ''not-a-date'' = ''not-a-date''"
    by code_simp+
  have p1: "parse_date ?lib ''2024-01-01'' = Some ''2024-01-01''"
    by (simp add: parse_date_def s1)
  have p2: "parse_date ?lib ''not-a-date'' = None"
    by (simp add: parse_date_def s2)
  have ex: "\<exists>r\<in>set [?r1, ?r2]. parse_date ?lib (Date r) = None"
    using p2 by simp
  from save_expenses_all_or_nothing[of ?lib "''not-a-date''" "[?r1, ?r2]" True "\<lparr>last_id = 0, rows = []\<rparr>"] ex
  have "save_expenses ?lib True [?r1, ?r2] \<lparr>last_id = 0, rows = []\<rparr> = (False, \<lparr>last_id = 0, rows = []\<rparr>)"
    by blast
  with p1 p2 show ?thesis by blast
qed

section \<open>Bulk recategorization\<close>

lemma set_category_distinct:
  assumes "distinct (map expense_id (pre @ e # suf))"
  shows "set_category c (expense_id e) (pre @ e # suf) = pre @ e\<lparr>category := Some c\<rparr> # suf"
proof -
  have "\<forall>x\<in>set pre. expense_id x \<noteq> expense_id e" using assms by (auto simp: image_iff)
  then have 1: "map (\<lambda>x. if expense_id x = expense_id e then x\<lparr>category := Some c\<rparr> else x) pre = pre"
    by (simp add: map_idI)
  have "\<forall>x\<in>set suf. expense_id x \<noteq> expense_id e" using assms by (auto simp: image_iff)
  then have 2: "map (\<lambda>x. if expense_id x = expense_id e then x\<lparr>category := Some c\<rparr> else x) suf = suf"
    by (simp add: map_idI)
  show ?thesis by (simp add: set_category_def 1 2)
qed

lemma rowcount_distinct:
  assumes "distinct (map expense_id (pre @ e # suf))"
  shows "rowcount (expense_id e) (pre @ e # suf) = 1"
proof -
  have "\<forall>x\<in>set pre. expense_id x \<noteq> expense_id e" using assms by (auto simp: image_iff)
  then have 1: "filter (\<lambda>x. expense_id x = expense_id e) pre = []" by (simp add: filter_empty_conv)
  have "\<forall>x\<in>set suf. expense_id x \<noteq> expense_id e" using assms by (auto simp: image_iff)
  then have 2: "filter (\<lambda>x. expense_id x = expense_id e) suf = []" by (simp add: filter_empty_conv)
  show ?thesis by (simp add: rowcount_def 1 2)
qed

lemma recategorize_loop_result:
  assumes "distinct (map expense_id (pre @ suf))"
  shows "recategorize_loop process categories
           (map (\<lambda>e. (expense_id e, description e, category e)) suf) (pre @ suf, n, ulog) =
         (pre @ map (\<lambda>e. if needs_update process categories e
                          then e\<lparr>category := Some (new_category_of process categories e)\<rparr>
                          else e) suf,
          n + length (filter (needs_update process categories) suf),
          ulog @ map (\<lambda>e. (expense_id e, the (description e), new_category_of process categories e))
                  (filter (needs_update process categories) suf))"
  using assms
proof (induction suf arbitrary: pre n ulog)
  case Nil
  then show ?case by simp
next
  case (Cons e suf)
  let ?new = "new_category_of process categories e"
  show ?case
  proof (cases "needs_update process categories e")
    case True
    then obtain d where d: "description e = Some d" "d \<noteq> []" "Some ?new \<noteq> category e"
      by (auto simp: needs_update_def)
    obtain conf where c: "categorize_expense process categories (Some d) = (?new, conf)"
      using d(1) by (cases "categorize_expense process categories (Some d)")
        (simp add: new_category_of_def)
    let ?e' = "e\<lparr>category := Some ?new\<rparr>"
    have dist': "distinct (map expense_id ((pre @ [?e']) @ suf))"
      using Cons.prems by simp
    have step: "recategorize_loop process categories
           (map (\<lambda>e. (expense_id e, description e, category e)) (e # suf)) (pre @ e # suf, n, ulog) =
         recategorize_loop process categories
           (map (\<lambda>e. (expense_id e, description e, category e)) suf)
           ((pre @ [?e']) @ suf, n + 1, ulog @ [(expense_id e, d, ?new)])"
      using d c set_category_distinct[OF Cons.prems, of ?new] rowcount_distinct[OF Cons.prems]
      by simp
    show ?thesis
      unfolding step Cons.IH[OF dist'] using True d(1) by simp
  next
    case False
    have dist': "distinct (map expense_id ((pre @ [e]) @ suf))"
      using Cons.prems by simp
    have step: "recategorize_loop process categories
           (map (\<lambda>e. (expense_id e, description e, category e)) (e # suf)) (pre @ e # suf, n, ulog) =
         recategorize_loop process categories
           (map (\<lambda>e. (expense_id e, description e, category e)) suf)
           ((pre @ [e]) @ suf, n, ulog)"
    proof (cases "description e")
      case None
      then show ?thesis by simp
    next
      case (Some d)
      show ?thesis
      proof (cases "d = []")
        case True
        then show ?thesis using Some by simp
      next
        case ne: False
        obtain nc conf where c: "categorize_expense process categories (Some d) = (nc, conf)"
          by (cases "categorize_expense process categories (Some d)")
        then have "nc = new_category_of process categories e"
          using Some by (simp add: new_category_of_def)
        with False Some ne have "Some nc = category e" by (simp add: needs_update_def)
        then show ?thesis using Some ne c by simp
      qed
    qed
    show ?thesis
      unfolding step Cons.IH[OF dist'] using False by simp
  qed
qed

lemma recategorize_run:
  assumes "distinct (map expense_id (rows tbl))"
  shows "update_existing_expenses_categories True process categories tbl =
     (Inr \<lparr>total_processed = length (rows tbl),
           total_updated = length (filter (needs_update process categories) (rows tbl)),
           updated_expenses =
             map (\<lambda>e. (expense_id e, the (description e), new_category_of process categories e))
               (filter (needs_update process categories) (rows tbl))\<rparr>,
      tbl\<lparr>rows := map (\<lambda>e. if needs_update process categories e
                              then e\<lparr>category := Some (new_category_of process categories e)\<rparr>
                              else e) (rows tbl)\<rparr>)"
  using recategorize_loop_result[of "[]" "rows tbl" process categories 0 "[]"] assms
  by (simp add: update_existing_expenses_categories_def Let_def)

lemma needs_update_after:
  "\<not> needs_update process categories
      (if needs_update process categories e
       then e\<lparr>category := Some (new_category_of process categories e)\<rparr> else e)"
  by (simp add: needs_update_def new_category_of_def)

lemma recategorize_twice:
  assumes "distinct (map expense_id (rows tbl))"
  shows "\<exists>r1 t1 r2 t2.
      update_existing_expenses_categories True process categories tbl = (Inr r1, t1) \<and>
      update_existing_expenses_categories True process categories t1 = (Inr r2, t2) \<and>
      total_updated r2 = 0"
proof -
  let ?upd = "\<lambda>e. if needs_update process categories e
                   then e\<lparr>category := Some (new_category_of process categories e)\<rparr> else e"
  let ?t1 = "tbl\<lparr>rows := map ?upd (rows tbl)\<rparr>"
  have ids': "map expense_id (rows ?t1) = map expense_id (rows tbl)"
  proof -
    have "map expense_id (map ?upd xs) = map expense_id xs" for xs
      by (induction xs) auto
    then show ?thesis by simp
  qed
  have d1: "distinct (map expense_id (rows ?t1))" unfolding ids' by (rule assms)
  have none: "filter (needs_update process categories) (rows ?t1) = []"
  proof -
    have "\<forall>x\<in>set (map ?upd (rows tbl)). \<not> needs_update process categories x"
    proof
      fix x assume "x \<in> set (map ?upd (rows tbl))"
      then have "x \<in> ?upd ` set (rows tbl)" by (simp only: set_map)
      then obtain e where xe: "x = ?upd e" by (rule imageE)
      show "\<not> needs_update process categories x"
        unfolding xe by (rule needs_update_after)
    qed
    then have "filter (needs_update process categories) (map ?upd (rows tbl)) = []"
      by (simp only: filter_empty_conv) 
    then show ?thesis by simp
  qed
  obtain r1 where r1: "update_existing_expenses_categories True process categories tbl = (Inr r1, ?t1)"
    using recategorize_run[OF assms, of process categories] by blast
  obtain r2 t2 where r2: "update_existing_expenses_categories True process categories ?t1 = (Inr r2, t2)"
    and z: "total_updated r2 = length (filter (needs_update process categories) (rows ?t1))"
    using recategorize_run[OF d1, of process categories] by simp
  from z none have "total_updated r2 = 0" by (simp only: list.size(3))
  with r1 r2 show ?thesis by blast
qed

lemma set_category_if_differs_distinct:
  assumes "distinct (map expense_id (pre @ e # suf))"
  shows "set_category_if_differs c (expense_id e) (pre @ e # suf) =
         pre @ (if category e \<noteq> None \<and> category e \<noteq> Some c
                then e\<lparr>category := Some c\<rparr> else e) # suf"
proof -
  have "\<forall>x\<in>set pre. expense_id x \<noteq> expense_id e" using assms by (auto simp: image_iff)
  then have 1: "map (\<lambda>x. if expense_id x = expense_id e \<and> category x \<noteq> None \<and> category x \<noteq> Some c
                          then x\<lparr>category := Some c\<rparr> else x) pre = pre"
    by (simp add: map_idI)
  have "\<forall>x\<in>set suf. expense_id x \<noteq> expense_id e" using assms by (auto simp: image_iff)
  then have 2: "map (\<lambda>x. if expense_id x = expense_id e \<and> category x \<noteq> None \<and> category x \<noteq> Some c
                          then x\<lparr>category := Some c\<rparr> else x) suf = suf"
    by (simp add: map_idI)
  show ?thesis using 1 2 by (simp add: set_category_if_differs_def)
qed

lemma rowcount_if_differs_distinct:
  assumes "distinct (map expense_id (pre @ e # suf))"
  shows "rowcount_if_differs c (expense_id e) (pre @ e # suf) =
         (if category e \<noteq> None \<and> category e \<noteq> Some c then 1 else 0)"
proof -
  have "\<forall>x\<in>set pre. expense_id x \<noteq> expense_id e" using assms by (auto simp: image_iff)
  then have 1: "filter (\<lambda>x. expense_id x = expense_id e \<and> category x \<noteq> None \<and> category x \<noteq> Some c) pre = []"
    by (simp add: filter_empty_conv)
  have "\<forall>x\<in>set suf. expense_id x \<noteq> expense_id e" using assms by (auto simp: image_iff)
  then have 2: "filter (\<lambda>x. expense_id x = expense_id e \<and> category x \<noteq> None \<and> category x \<noteq> Some c) suf = []"
    by (simp add: filter_empty_conv)
  show ?thesis using 1 2 by (simp add: rowcount_if_differs_def)
qed

lemma script_loop_result:
  assumes "distinct (map expense_id (pre @ suf))"
  shows "script_loop sc categories (map (\<lambda>e. (expense_id e, description e)) suf) (pre @ suf, n, ulog) =
         (pre @ map (\<lambda>e. if script_needs_update sc categories e
                          then e\<lparr>category := Some (script_new_category_of sc categories e)\<rparr>
                          else e) suf,
          n + length (filter (script_needs_update sc categories) suf),
          ulog @ map (\<lambda>e. (expense_id e, the (description e), script_new_category_of sc categories e))
                  (filter (script_needs_update sc categories) suf))"
  using assms
proof (induction suf arbitrary: pre n ulog)
  case Nil
  then show ?case by simp
next
  case (Cons e suf)
  let ?new = "script_new_category_of sc categories e"
  show ?case
  proof (cases "script_needs_update sc categories e")
    case True
    then obtain d where d: "description e = Some d" "d \<noteq> []"
      "category e \<noteq> None \<and> category e \<noteq> Some ?new"
      by (auto simp: script_needs_update_def)
    obtain conf where c: "script_categorize_expense sc categories (Some d) = (?new, conf)"
      using d(1) by (cases "script_categorize_expense sc categories (Some d)")
        (simp add: script_new_category_of_def)
    let ?e' = "e\<lparr>category := Some ?new\<rparr>"
    have dist': "distinct (map expense_id ((pre @ [?e']) @ suf))"
      using Cons.prems by simp
    have step: "script_loop sc categories
           (map (\<lambda>e. (expense_id e, description e)) (e # suf)) (pre @ e # suf, n, ulog) =
         script_loop sc categories (map (\<lambda>e. (expense_id e, description e)) suf)
           ((pre @ [?e']) @ suf, n + 1, ulog @ [(expense_id e, d, ?new)])"
      using d c set_category_if_differs_distinct[OF Cons.prems, of ?new]
        rowcount_if_differs_distinct[OF Cons.prems, of ?new]
      by simp
    show ?thesis
      unfolding step Cons.IH[OF dist'] using True d(1) by simp
  next
    case False
    have dist': "distinct (map expense_id ((pre @ [e]) @ suf))"
      using Cons.prems by simp
    have step: "script_loop sc categories
           (map (\<lambda>e. (expense_id e, description e)) (e # suf)) (pre @ e # suf, n, ulog) =
         script_loop sc categories (map (\<lambda>e. (expense_id e, description e)) suf)
           ((pre @ [e]) @ suf, n, ulog)"
    proof (cases "description e")
      case None
      then show ?thesis by simp
    next
      case (Some d)
      show ?thesis
      proof (cases "d = []")
        case True
        then show ?thesis using Some by simp
      next
        case ne: False
        obtain nc conf where c: "script_categorize_expense sc categories (Some d) = (nc, conf)"
          by (cases "script_categorize_expense sc categories (Some d)")
        then have nc: "nc = script_new_category_of sc categories e"
          using Some by (simp add: script_new_category_of_def)
        with False Some ne have same: "\<not> (category e \<noteq> None \<and> category e \<noteq> Some nc)"
          by (simp add: script_needs_update_def)
        have keep: "set_category_if_differs nc (expense_id e) (pre @ e # suf) = pre @ e # suf"
          using same set_category_if_differs_distinct[OF Cons.prems, of nc] by auto
        have zero: "rowcount_if_differs nc (expense_id e) (pre @ e # suf) = 0"
          using same rowcount_if_differs_distinct[OF Cons.prems, of nc] by auto
        show ?thesis
          using Some ne c keep zero by simp
      qed
    qed
    show ?thesis
      unfolding step Cons.IH[OF dist'] using False by simp
  qed
qed

lemma script_run:
  assumes "distinct (map expense_id (rows tbl))"
  shows "update_existing_expenses True sc categories tbl =
     (Inr \<lparr>total_processed = length (rows tbl),
           total_updated = length (filter (script_needs_update sc categories) (rows tbl)),
           updated_expenses =
             map (\<lambda>e. (expense_id e, the (description e), script_new_category_of sc categories e))
               (filter (script_needs_update sc categories) (rows tbl))\<rparr>,
      tbl\<lparr>rows := map (\<lambda>e. if script_needs_update sc categories e
                              then e\<lparr>category := Some (script_new_category_of sc categories e)\<rparr>
                              else e) (rows tbl)\<rparr>)"
  using script_loop_result[of "[]" "rows tbl" sc categories 0 "[]"] assms
  by (simp add: update_existing_expenses_def Let_def)

lemma script_needs_update_after:
  "\<not> script_needs_update sc categories
      (if script_needs_update sc categories e
       then e\<lparr>category := Some (script_new_category_of sc categories e)\<rparr> else e)"
  by (simp add: script_needs_update_def script_new_category_of_def)

lemma script_twice:
  assumes "distinct (map expense_id (rows tbl))"
  shows "\<exists>r1 t1 r2 t2.
      update_existing_expenses True sc categories tbl = (Inr r1, t1) \<and>
      update_existing_expenses True sc categories t1 = (Inr r2, t2) \<and>
      total_updated r2 = 0"
proof -
  let ?upd = "\<lambda>e. if script_needs_update sc categories e
                   then e\<lparr>category := Some (script_new_category_of sc categories e)\<rparr> else e"
  let ?t1 = "tbl\<lparr>rows := map ?upd (rows tbl)\<rparr>"
  have ids': "map expense_id (rows ?t1) = map expense_id (rows tbl)"
  proof -
    have "map expense_id (map ?upd xs) = map expense_id xs" for xs
      by (induction xs) auto
    then show ?thesis by simp
  qed
  have d1: "distinct (map expense_id (rows ?t1))" unfolding ids' by (rule assms)
  have none: "filter (script_needs_update sc categories) (rows ?t1) = []"
  proof -
    have "\<forall>x\<in>set (map ?upd (rows tbl)). \<not> script_needs_update sc categories x"
    proof
      fix x assume "x \<in> set (map ?upd (rows tbl))"
      then have "x \<in> ?upd ` set (rows tbl)" by (simp only: set_map)
      then obtain e where xe: "x = ?upd e" by (rule imageE)
      show "\<not> script_needs_update sc categories x"
        unfolding xe by (rule script_needs_update_after)
    qed
    then have "filter (script_needs_update sc categories) (map ?upd (rows tbl)) = []"
      by (simp only: filter_empty_conv)
    then show ?thesis by simp
  qed
  obtain r1 where r1: "update_existing_expenses True sc categories tbl = (Inr r1, ?t1)"
    using script_run[OF assms, of sc categories] by blast
  obtain r2 t2 where r2: "update_existing_expenses True sc categories ?t1 = (Inr r2, t2)"
    and z: "total_updated r2 = length (filter (script_needs_update sc categories) (rows ?t1))"
    using script_run[OF d1, of sc categories] by simp
  from z none have "total_updated r2 = 0" by (simp only: list.size(3))
  with r1 r2 show ?thesis by blast
qed

text \<open>
  C6 (as stated). The change-log entry of a rewritten record holds the id, the
  description, the old and the new category. This fails: the entry appended to
  \<open>updated_expenses\<close> is the id, the description and the new category only. Two
  tables that differ in the stored (old) category of the record alone give the same log.
\<close>

theorem recategorize_log_counterexample:
  "fst (update_existing_expenses_categories True (Some (\<lambda>q k. if q = k then 100 else 0))
     [(''food'', [''restaurant'', ''cafe'']), (''transport'', [''taxi'', ''grab''])]
     \<lparr>last_id = 1, rows =
        [\<lparr>expense_id = 1, date = ''2024-01-01'', description = Some ''Grab Ride'', amount = 10,
          category = Some ''food'', self_percentage = 50, self_amount = 5, wife_amount = 5,
          original_text = ''S$10.00'', credit_card_bill_month = ''2024-01-01''\<rparr>]\<rparr>) =
     Inr \<lparr>total_processed = 1, total_updated = 1,
          updated_expenses = [(1, ''Grab Ride'', ''transport'')]\<rparr> \<and>
   fst (update_existing_expenses_categories True (Some (\<lambda>q k. if q = k then 100 else 0))
     [(''food'', [''restaurant'', ''cafe'']), (''transport'', [''taxi'', ''grab''])]
     \<lparr>last_id = 1, rows =
        [\<lparr>expense_id = 1, date = ''2024-01-01'', description = Some ''Grab Ride'', amount = 10,
          category = Some ''others'', self_percentage = 50, self_amount = 5, wife_amount = 5,
          original_text = ''S$10.00'', credit_card_bill_month = ''2024-01-01''\<rparr>]\<rparr>) =
     Inr \<lparr>total_processed = 1, total_updated = 1,
          updated_expenses = [(1, ''Grab Ride'', ''transport'')]\<rparr>"
  by code_simp

text \<open>
  C6 (amended). For every run of the bulk recategorization over a table with distinct ids
  and any category snapshot: every record with a non-empty description whose recomputed
  category differs from its stored category gets the recomputed category, and nothing else
  of it (nor any other record) changes, so no confidence score is persisted; for each such
  record, in table order, the entry (id, description, new category) is appended to the
  change log; the result is the number of all records, the number of rewritten records
  and that log.
\<close>

theorem recategorize_rewrites_and_logs:
  assumes "distinct (map expense_id (rows tbl))"
  shows "update_existing_expenses_categories True process categories tbl =
     (Inr \<lparr>total_processed = length (rows tbl),
           total_updated = length (filter (needs_update process categories) (rows tbl)),
           updated_expenses =
             map (\<lambda>e. (expense_id e, the (description e), new_category_of process categories e))
               (filter (needs_update process categories) (rows tbl))\<rparr>,
      tbl\<lparr>rows := map (\<lambda>e. if needs_update process categories e
                              then e\<lparr>category := Some (new_category_of process categories e)\<rparr>
                              else e) (rows tbl)\<rparr>)"
  using assms by (rule recategorize_run)

theorem recategorize_rewrites_and_logs_witness:
  "update_existing_expenses_categories True (Some (\<lambda>q k. if q = k then 100 else 0))
     [(''food'', [''restaurant'', ''cafe'']), (''transport'', [''taxi'', ''grab''])]
     \<lparr>last_id = 3, rows =
        [\<lparr>expense_id = 1, date = ''2024-01-01'', description = Some ''Grab Ride'', amount = 10,
          category = Some ''food'', self_percentage = 50, self_amount = 5, wife_amount = 5,
          original_text = ''S$10.00'', credit_card_bill_month = ''2024-01-01''\<rparr>,
         \<lparr>expense_id = 2, date = ''2024-01-02'', description = Some '''', amount = 4,
          category = Some ''food'', self_percentage = 50, self_amount = 2, wife_amount = 2,
          original_text = ''S$4.00'', credit_card_bill_month = ''2024-01-01''\<rparr>,
         \<lparr>expense_id = 3, date = ''2024-01-03'', description = Some ''Corner Cafe'', amount = 6,
          category = Some ''food'', self_percentage = 50, self_amount = 3, wife_amount = 3,
          original_text = ''S$6.00'', credit_card_bill_month = ''2024-01-01''\<rparr>]\<rparr> =
   (Inr \<lparr>total_processed = 3, total_updated = 1,
         updated_expenses = [(1, ''Grab Ride'', ''transport'')]\<rparr>,
    \<lparr>last_id = 3, rows =
        [\<lparr>expense_id = 1, date = ''2024-01-01'', description = Some ''Grab Ride'', amount = 10,
          category = Some ''transport'', self_percentage = 50, self_amount = 5, wife_amount = 5,
          original_text = ''S$10.00'', credit_card_bill_month = ''2024-01-01''\<rparr>,
         \<lparr>expense_id = 2, date = ''2024-01-02'', description = Some '''', amount = 4,
          category = Some ''food'', self_percentage = 50, self_amount = 2, wife_amount = 2,
          original_text = ''S$4.00'', credit_card_bill_month = ''2024-01-01''\<rparr>,
         \<lparr>expense_id = 3, date = ''2024-01-03'', description = Some ''Corner Cafe'', amount = 6,
          category = Some ''food'', self_percentage = 50, self_amount = 3, wife_amount = 3,
          original_text = ''S$6.00'', credit_card_bill_month = ''2024-01-01''\<rparr>]\<rparr>)"
proof -
  let ?P = "Some (\<lambda>q k :: string. if q = k then 100 else (0::nat))"
  let ?C = "[(''food'', [''restaurant'', ''cafe'']), (''transport'', [''taxi'', ''grab''])]"
  let ?e1 = "\<lparr>expense_id = 1, date = ''2024-01-01'', description = Some ''Grab Ride'', amount = 10,
          category = Some ''food'', self_percentage = 50, self_amount = 5, wife_amount = 5,
          original_text = ''S$10.00'', credit_card_bill_month = ''2024-01-01''\<rparr>"
  let ?e2 = "\<lparr>expense_id = 2, date = ''2024-01-02'', description = Some '''', amount = 4,
          category = Some ''food'', self_percentage = 50, self_amount = 2, wife_amount = 2,
          original_text = ''S$4.00'', credit_card_bill_month = ''2024-01-01''\<rparr>"
  let ?e3 = "\<lparr>expense_id = 3, date = ''2024-01-03'', description = Some ''Corner Cafe'', amount = 6,
          category = Some ''food'', self_percentage = 50, self_amount = 3, wife_amount = 3,
          original_text = ''S$6.00'', credit_card_bill_month = ''2024-01-01''\<rparr>"
  let ?T = "\<lparr>last_id = 3, rows = [?e1, ?e2, ?e3]\<rparr>"
  have d: "distinct (map expense_id (rows ?T))" by simp
  have n1: "needs_update ?P ?C ?e1" and n2: "\<not> needs_update ?P ?C ?e2"
    and n3: "\<not> needs_update ?P ?C ?e3"
    by code_simp+
  have c1: "new_category_of ?P ?C ?e1 = ''transport''" by code_simp
  from recategorize_rewrites_and_logs[OF d, of ?P ?C]
  show ?thesis using n1 n2 n3 c1 by simp
qed

text \<open>
  C7. For every table with distinct ids, snapshot and scorer: running the bulk
  recategorization twice in succession, with nothing written in between, both runs return
  a result and the second one reports zero updated records. This holds for the run of the
  application and for the run of the maintenance script.
\<close>

theorem recategorize_idempotent:
  assumes "distinct (map expense_id (rows tbl))"
  shows "(\<exists>r1 t1 r2 t2.
            update_existing_expenses_categories True process categories tbl = (Inr r1, t1) \<and>
            update_existing_expenses_categories True process categories t1 = (Inr r2, t2) \<and>
            total_updated r2 = 0) \<and>
         (\<exists>r1 t1 r2 t2.
            update_existing_expenses True sc categories tbl = (Inr r1, t1) \<and>
            update_existing_expenses True sc categories t1 = (Inr r2, t2) \<and>
            total_updated r2 = 0)"
  using recategorize_twice[OF assms] script_twice[OF assms] by blast

theorem recategorize_idempotent_witness:
  "fst (update_existing_expenses_categories True (Some (\<lambda>q k. if q = k then 100 else 0))
     [(''food'', [''restaurant'', ''cafe'']), (''transport'', [''taxi'', ''grab''])]
     \<lparr>last_id = 2, rows =
        [\<lparr>expense_id = 1, date = ''2024-01-01'', description = Some ''Grab Ride'', amount = 10,
          category = Some ''food'', self_percentage = 50, self_amount = 5, wife_amount = 5,
          original_text = ''S$10.00'', credit_card_bill_month = ''2024-01-01''\<rparr>,
         \<lparr>expense_id = 2, date = ''2024-01-03'', description = Some ''xyz123'', amount = 6,
          category = None, self_percentage = 50, self_amount = 3, wife_amount = 3,
          original_text = ''S$6.00'', credit_card_bill_month = ''2024-01-01''\<rparr>]\<rparr>) =
     Inr \<lparr>total_processed = 2, total_updated = 2,
          updated_expenses = [(1, ''Grab Ride'', ''transport''), (2, ''xyz123'', ''others'')]\<rparr> \<and>
   fst (update_existing_expenses_categories True (Some (\<lambda>q k. if q = k then 100 else 0))
     [(''food'', [''restaurant'', ''cafe'']), (''transport'', [''taxi'', ''grab''])]
     (snd (update_existing_expenses_categories True (Some (\<lambda>q k. if q = k then 100 else 0))
       [(''food'', [''restaurant'', ''cafe'']), (''transport'', [''taxi'', ''grab''])]
       \<lparr>last_id = 2, rows =
          [\<lparr>expense_id = 1, date = ''2024-01-01'', description = Some ''Grab Ride'', amount = 10,
            category = Some ''food'', self_percentage = 50, self_amount = 5, wife_amount = 5,
            original_text = ''S$10.00'', credit_card_bill_month = ''2024-01-01''\<rparr>,
           \<lparr>expense_id = 2, date = ''2024-01-03'', description = Some ''xyz123'', amount = 6,
            category = None, self_percentage = 50, self_amount = 3, wife_amount = 3,
            original_text = ''S$6.00'', credit_card_bill_month = ''2024-01-01''\<rparr>]\<rparr>))) =
     Inr \<lparr>total_processed = 2, total_updated = 0, updated_expenses = []\<rparr>"
proof -
  let ?P = "Some (\<lambda>q k :: string. if q = k then 100 else (0::nat))"
  let ?C = "[(''food'', [''restaurant'', ''cafe'']), (''transport'', [''taxi'', ''grab''])]"
  let ?T = "\<lparr>last_id = 2, rows =
        [\<lparr>expense_id = 1, date = ''2024-01-01'', description = Some ''Grab Ride'', amount = 10,
          category = Some ''food'', self_percentage = 50, self_amount = 5, wife_amount = 5,
          original_text = ''S$10.00'', credit_card_bill_month = ''2024-01-01''\<rparr>,
         \<lparr>expense_id = 2, date = ''2024-01-03'', description = Some ''xyz123'', amount = 6,
          category = None, self_percentage = 50, self_amount = 3, wife_amount = 3,
          original_text = ''S$6.00'', credit_card_bill_month = ''2024-01-01''\<rparr>]\<rparr>"
  have d: "distinct (map expense_id (rows ?T))" by simp
  have run1: "fst (update_existing_expenses_categories True ?P ?C ?T) =
     Inr \<lparr>total_processed = 2, total_updated = 2,
          updated_expenses = [(1, ''Grab Ride'', ''transport''), (2, ''xyz123'', ''others'')]\<rparr>"
    by code_simp
  have run2: "updated_expenses (projr (fst (update_existing_expenses_categories True ?P ?C
        (snd (update_existing_expenses_categories True ?P ?C ?T))))) = []"
    by code_simp
  have proc2: "total_processed (projr (fst (update_existing_expenses_categories True ?P ?C
        (snd (update_existing_expenses_categories True ?P ?C ?T))))) = 2"
    by code_simp
  from recategorize_idempotent[OF d, of ?P ?C]
  obtain r1 t1 r2 t2 where
    a: "update_existing_expenses_categories True ?P ?C ?T = (Inr r1, t1)" and
    b: "update_existing_expenses_categories True ?P ?C t1 = (Inr r2, t2)" and
    z: "total_updated r2 = 0"
    by blast
  from a b have "fst (update_existing_expenses_categories True ?P ?C
        (snd (update_existing_expenses_categories True ?P ?C ?T))) = Inr r2"
    by simp
  moreover from this run2 proc2 z
  have "r2 = \<lparr>total_processed = 2, total_updated = 0, updated_expenses = []\<rparr>"
    by simp
  ultimately show ?thesis using run1 by simp
qed

section \<open>Split calculator: shares that are complementary to the cent\<close>

lemma round_half_even_error: "\<bar>of_int (round_half_even z) - z\<bar> \<le> 1 / 2"
proof -
  have a: "of_int \<lfloor>z\<rfloor> \<le> z" and b: "z < of_int \<lfloor>z\<rfloor> + 1"
    by linarith+
  show ?thesis
    using a b by (auto simp: round_half_even_def Let_def abs_le_iff)
qed

lemma round_half_even_unique:
  assumes "\<bar>z - of_int j\<bar> < 1 / 2"
  shows "round_half_even z = j"
proof (cases "of_int j \<le> z")
  case True
  then have "\<lfloor>z\<rfloor> = j" using assms by (intro floor_unique) (auto simp: abs_less_iff)
  then show ?thesis using assms True by (auto simp: round_half_even_def Let_def abs_less_iff)
next
  case False
  then have "\<lfloor>z\<rfloor> = j - 1" using assms by (intro floor_unique) (auto simp: abs_less_iff)
  then show ?thesis using assms False by (auto simp: round_half_even_def Let_def abs_less_iff)
qed

lemma round_half_even_nonneg: "0 \<le> z \<Longrightarrow> 0 \<le> round_half_even z"
  by (auto simp: round_half_even_def Let_def)

lemma ilog2_lower:
  assumes "0 < x"
  shows "2 powi (ilog2 x) \<le> x"
proof -
  obtain p q where pq: "quotient_of x = (p, q)" by (cases "quotient_of x")
  then have q: "0 < q" by (rule quotient_of_denom_pos)
  have x: "x = of_int p / of_int q" using pq by (rule quotient_of_div)
  have p: "0 < p" using assms q x by (simp add: zero_less_divide_iff)
  let ?d = "bitlen p - bitlen q"
  show ?thesis
  proof (cases "2 powi ?d \<le> x")
    case True
    then show ?thesis by (simp add: ilog2_def pq Let_def)
  next
    case False
    have bp: "2 ^ nat (bitlen p - 1) \<le> p" using bitlen_bounds[OF p] by simp
    have bq: "q < 2 ^ nat (bitlen q)" using bitlen_bounds[OF q] by simp
    have bp1: "1 \<le> bitlen p" using p by (simp add: bitlen_def floorlog_def)
    have bq0: "0 \<le> bitlen q" by (simp add: bitlen_def)
    have 1: "(2::rat) powi (bitlen p - 1) \<le> of_int p"
    proof -
      have "(2::rat) powi (bitlen p - 1) = 2 ^ nat (bitlen p - 1)"
        using bp1 by (simp add: power_int_def)
      also have "\<dots> = of_int (2 ^ nat (bitlen p - 1))" by simp
      also have "\<dots> \<le> of_int p" using bp by (simp only: of_int_le_iff)
      finally show ?thesis .
    qed
    have 2: "of_int q \<le> (2::rat) powi (bitlen q)"
    proof -
      have "(of_int q :: rat) \<le> of_int (2 ^ nat (bitlen q))"
        using bq by simp
      also have "\<dots> = 2 ^ nat (bitlen q)" by simp
      also have "\<dots> = (2::rat) powi (bitlen q)" using bq0 by (simp add: power_int_def)
      finally show ?thesis .
    qed
    have "(2::rat) powi (?d - 1) = 2 powi (bitlen p - 1) / 2 powi (bitlen q)"
      by (simp add: power_int_diff)
    also have "\<dots> \<le> of_int p / of_int q"
      using 1 2 q p by (intro frac_le) auto
    finally have "(2::rat) powi (?d - 1) \<le> x" using x by simp
    then show ?thesis using False by (simp add: ilog2_def pq Let_def)
  qed
qed

lemma fl_error:
  assumes "\<bar>x\<bar> \<le> 2 ^ 40"
  shows "\<bar>fl x - x\<bar> \<le> 1 / 2 ^ 13"
proof (cases "x = 0")
  case True
  then show ?thesis by (simp add: fl_def)
next
  case False
  define e where "e = max (ilog2 \<bar>x\<bar> - 52) (- 1074)"
  have pos: "0 < \<bar>x\<bar>" using False by simp
  have il: "ilog2 \<bar>x\<bar> \<le> 40"
  proof (rule ccontr)
    assume "\<not> ilog2 \<bar>x\<bar> \<le> 40"
    then have "41 \<le> ilog2 \<bar>x\<bar>" by simp
    then have "(2::rat) powi 41 \<le> 2 powi (ilog2 \<bar>x\<bar>)"
      by (intro power_int_increasing) auto
    also have "\<dots> \<le> \<bar>x\<bar>" using ilog2_lower[OF pos] .
    finally have "(2::rat) powi 41 \<le> 2 ^ 40" using assms by simp
    then show False by (simp add: power_int_def)
  qed
  then have e12: "e \<le> - 12" by (simp add: e_def)
  have pe: "0 < (2::rat) powi e" by simp
  have le: "(2::rat) powi e \<le> 2 powi (- 12)"
    using e12 by (intro power_int_increasing) auto
  have flx: "fl x = of_int (round_half_even (x / 2 powi e)) * 2 powi e"
    using False by (simp add: fl_def e_def Let_def)
  have "fl x - x = (of_int (round_half_even (x / 2 powi e)) - x / 2 powi e) * 2 powi e"
    using pe by (simp add: flx field_simps)
  then have "\<bar>fl x - x\<bar> = \<bar>of_int (round_half_even (x / 2 powi e)) - x / 2 powi e\<bar> * 2 powi e"
    using pe by (simp add: abs_mult)
  also have "\<dots> \<le> 1 / 2 * 2 powi e"
    using round_half_even_error[of "x / 2 powi e"] pe by (intro mult_right_mono) auto
  also have "\<dots> \<le> 1 / 2 * 2 powi (- 12)"
    using le by simp
  also have "\<dots> = 1 / 2 ^ 13" by (simp add: power_int_def power_one_over)
  finally show ?thesis .
qed

lemma fl_nonneg: "0 \<le> x \<Longrightarrow> 0 \<le> fl x"
  by (auto simp: fl_def Let_def intro!: mult_nonneg_nonneg round_half_even_nonneg divide_nonneg_pos)

lemma ilog2_upper:
  assumes "0 < x"
  shows "x < 2 powi (ilog2 x + 1)"
proof -
  obtain p q where pq: "quotient_of x = (p, q)" by (cases "quotient_of x")
  then have q: "0 < q" by (rule quotient_of_denom_pos)
  have x: "x = of_int p / of_int q" using pq by (rule quotient_of_div)
  have p: "0 < p" using assms q x by (simp add: zero_less_divide_iff)
  let ?d = "bitlen p - bitlen q"
  show ?thesis
  proof (cases "2 powi ?d \<le> x")
    case False
    then show ?thesis by (simp add: ilog2_def pq Let_def)
  next
    case True
    have bp: "p < 2 ^ nat (bitlen p)" using bitlen_bounds[OF p] by simp
    have bq: "2 ^ nat (bitlen q - 1) \<le> q" using bitlen_bounds[OF q] by simp
    have bp0: "0 \<le> bitlen p" by (simp add: bitlen_def)
    have bq1: "1 \<le> bitlen q" using q by (simp add: bitlen_def floorlog_def)
    have 1: "of_int p < (2::rat) powi (bitlen p)"
    proof -
      have "(of_int p :: rat) < of_int (2 ^ nat (bitlen p))"
        using bp by (simp only: of_int_less_iff)
      also have "\<dots> = (2::rat) powi (bitlen p)" using bp0 by (simp add: power_int_def)
      finally show ?thesis .
    qed
    have 2: "(2::rat) powi (bitlen q - 1) \<le> of_int q"
    proof -
      have "(2::rat) powi (bitlen q - 1) = of_int (2 ^ nat (bitlen q - 1))"
        using bq1 by (simp add: power_int_def)
      also have "\<dots> \<le> of_int q" using bq by (simp only: of_int_le_iff)
      finally show ?thesis .
    qed
    have "of_int p / of_int q < (2::rat) powi (bitlen p) / 2 powi (bitlen q - 1)"
      using 1 2 q p by (intro frac_less) auto
    also have "\<dots> = (2::rat) powi (bitlen p - (bitlen q - 1))"
      by (rule power_int_diff[symmetric]) simp
    also have "bitlen p - (bitlen q - 1) = ?d + 1" by simp
    finally have "x < (2::rat) powi (?d + 1)" using x by simp
    then show ?thesis using True by (simp add: ilog2_def pq Let_def)
  qed
qed

lemma fl_error_num:
  "\<bar>x\<bar> \<le> 1099511627776 \<Longrightarrow> \<bar>fl x - x\<bar> \<le> 1 / 8192"
  using fl_error[of x] by simp

lemma py_round2_cents:
  assumes "\<bar>x - of_int j / 100\<bar> \<le> 3 / 8192"
  shows "py_round2 x = fl (of_int j / 100)"
proof -
  have "\<bar>100 * x - of_int j\<bar> = 100 * \<bar>x - of_int j / 100\<bar>"
    by (simp add: abs_if field_simps)
  also have "\<dots> \<le> 100 * (3 / 8192)" using assms by simp
  also have "\<dots> < 1 / 2" by simp
  finally have "round_half_even (100 * x) = j" by (rule round_half_even_unique)
  then show ?thesis by (simp add: py_round2_def)
qed

text \<open>
  C2 (as stated). For every amount and every percentage in [0, 100], the float sum of the
  two shares equals \<open>round(amount, 2)\<close> exactly. This fails. For the amount 0.125 at 8
  percent the shares are 0.01 and 0.12, which add up to 0.13, and \<open>round(0.125, 2)\<close> is
  0.12. For the amount 0.15 at 50 percent the shares are 0.07 and 0.08, and their float sum
  is the double above 0.15.
\<close>

theorem calculate_split_amounts_counterexample:
  "calculate_split_amounts (1 / 8) 8 = (fl (1 / 100), fl (12 / 100)) \<and>
   fl (fl (1 / 100) + fl (12 / 100)) = fl (13 / 100) \<and>
   py_round2 (1 / 8) = fl (12 / 100) \<and>
   fl (13 / 100) \<noteq> fl (12 / 100) \<and>
   calculate_split_amounts (fl (15 / 100)) 50 = (fl (7 / 100), fl (8 / 100)) \<and>
   py_round2 (fl (15 / 100)) = fl (15 / 100) \<and>
   fl (fl (7 / 100) + fl (8 / 100)) \<noteq> fl (15 / 100)"
proof (intro conjI)
  show "calculate_split_amounts (1 / 8) 8 = (fl (1 / 100), fl (12 / 100))" by code_simp
  show "fl (fl (1 / 100) + fl (12 / 100)) = fl (13 / 100)" by code_simp
  show "py_round2 (1 / 8) = fl (12 / 100)" by code_simp
  show "fl (13 / 100) \<noteq> fl (12 / 100)" by code_simp
  show "calculate_split_amounts (fl (15 / 100)) 50 = (fl (7 / 100), fl (8 / 100))" by code_simp
  show "py_round2 (fl (15 / 100)) = fl (15 / 100)" by code_simp
  show "fl (fl (7 / 100) + fl (8 / 100)) \<noteq> fl (15 / 100)" by code_simp
qed

text \<open>
  C2 (amended). For every amount that is a whole number of cents, that is the double
  nearest to \<open>n / 100\<close> for a natural number \<open>n\<close> with \<open>n / 100\<close> at most \<open>2 ^ 38\<close>,
  and every percentage in [0, 100]: the self share is the double nearest to \<open>k / 100\<close>
  for an integer \<open>k\<close>, and the partner share is the double nearest to
  \<open>(n - k) / 100\<close>, so the two shares are complementary to the cent; and
  \<open>round(amount, 2)\<close> is the amount itself. (The float sum of the two shares may still
  differ from the amount in the last bit.)
\<close>

theorem calculate_split_amounts_cents:
  fixes n :: nat and p :: rat
  assumes n: "of_nat n / 100 \<le> (2::rat) ^ 38"
    and p: "0 \<le> p" "p \<le> 100"
  shows "\<exists>k::int. calculate_split_amounts (fl (of_nat n / 100)) p =
            (fl (of_int k / 100), fl ((of_nat n - of_int k) / 100)) \<and>
          py_round2 (fl (of_nat n / 100)) = fl (of_nat n / 100)"
proof -
  define a :: rat where "a = of_nat n / 100"
  define amt where "amt = fl a"
  define q where "q = fl (p / 100)"
  define P where "P = fl (amt * q)"
  define k where "k = round_half_even (100 * P)"
  define S where "S = fl (of_int k / 100)"
  define D where "D = fl (amt - S)"
  have a0: "0 \<le> a" by (simp add: a_def)
  have a38: "a \<le> 274877906944" using n by (simp add: a_def)
  have "\<bar>a\<bar> \<le> 1099511627776" using a0 a38 by linarith
  then have am: "\<bar>amt - a\<bar> \<le> 1 / 8192"
    unfolding amt_def by (rule fl_error_num)
  have amb: "\<bar>amt\<bar> \<le> 274877906945" using am a0 a38 by linarith
  have "\<bar>p / 100\<bar> \<le> 1099511627776" using p by (simp add: abs_le_iff)
  then have qe: "\<bar>q - p / 100\<bar> \<le> 1 / 8192"
    unfolding q_def by (rule fl_error_num)
  have p1: "\<bar>p / 100\<bar> \<le> 1" using p by (simp add: abs_le_iff)
  have qb: "\<bar>q\<bar> \<le> 2" using qe p1 by linarith
  have "\<bar>amt * q\<bar> \<le> 274877906945 * 2"
    unfolding abs_mult using amb qb by (intro mult_mono) auto
  then have prod: "\<bar>amt * q\<bar> \<le> 549755813890" by simp
  then have "\<bar>amt * q\<bar> \<le> 1099511627776" by linarith
  then have Pe: "\<bar>P - amt * q\<bar> \<le> 1 / 8192"
    unfolding P_def by (rule fl_error_num)
  have Pb: "\<bar>P\<bar> \<le> 549755813891" using Pe prod by linarith
  have ke: "\<bar>of_int k - 100 * P\<bar> \<le> 1 / 2"
    unfolding k_def by (rule round_half_even_error)
  have kb: "\<bar>of_int k / 100 :: rat\<bar> \<le> 549755813892"
    using ke Pb by linarith
  then have "\<bar>of_int k / 100 :: rat\<bar> \<le> 1099511627776" by linarith
  then have Se: "\<bar>S - of_int k / 100\<bar> \<le> 1 / 8192"
    unfolding S_def by (rule fl_error_num)
  have Sb: "\<bar>S\<bar> \<le> 549755813893" using Se kb by linarith
  have "\<bar>amt - S\<bar> \<le> 1099511627776" using amb Sb by linarith
  then have De: "\<bar>D - (amt - S)\<bar> \<le> 1 / 8192"
    unfolding D_def by (rule fl_error_num)
  have self: "py_round2 P = S" by (simp add: py_round2_def k_def S_def)
  have cents: "of_int (int n - k) / (100::rat) = a - of_int k / 100"
    by (simp add: a_def diff_divide_distrib)
  have "\<bar>D - of_int (int n - k) / 100\<bar> \<le> 3 / 8192"
    unfolding cents using De am Se by linarith
  then have wife: "py_round2 D = fl (of_int (int n - k) / 100)" by (rule py_round2_cents)
  have "of_int (int n) / (100::rat) = a" by (simp add: a_def)
  then have "\<bar>amt - of_int (int n) / 100\<bar> \<le> 3 / 8192"
    using am by linarith
  then have whole: "py_round2 amt = fl (of_int (int n) / 100)" by (rule py_round2_cents)
  have split: "calculate_split_amounts amt p = (S, fl ((of_nat n - of_int k) / 100))"
    using self wife
    by (simp add: calculate_split_amounts_def Let_def q_def[symmetric] P_def[symmetric]
        D_def[symmetric])
  from split whole show ?thesis
    unfolding amt_def a_def S_def by auto
qed

theorem calculate_split_amounts_cents_witness:
  "calculate_split_amounts (fl (15 / 100)) 50 = (fl (7 / 100), fl ((15 - 7) / 100)) \<and>
   py_round2 (fl (15 / 100)) = fl (15 / 100)"
proof -
  have n: "of_nat 15 / 100 \<le> (2::rat) ^ 38" by simp
  have p: "(0::rat) \<le> 50" "(50::rat) \<le> 100" by simp_all
  have ev: "calculate_split_amounts (fl (15 / 100)) 50 = (fl (7 / 100), fl ((15 - 7) / 100))"
    by code_simp
  from calculate_split_amounts_cents[OF n p]
  have "py_round2 (fl (15 / 100)) = fl (15 / 100)" by simp
  with ev show ?thesis by simp
qed
end
